theory Spec2Isabelle
  imports Main "HOL-Library.AList" "HOL-Library.Multiset" "HOL-Library.Sublist"
    "HOL-Library.Product_Lexorder"
begin

section \<open>Data model (core/types.py, core/exceptions.py)\<close>

text \<open>
  Python's unbounded integers are \<open>int\<close>. A \<open>(day, slot)\<close> tuple is a pair of
  integers. Insertion-ordered dictionaries (\<open>self.assignment\<close>, \<open>subject_students\<close>,
  \<open>remaining\<close>) are association lists with the operations of \<open>AList\<close>:
  \<open>AList.update\<close> overwrites in place or appends, as \<open>d[k] = v\<close> does.
\<close>

type_synonym cell = "int \<times> int"

record StudentGroup =
  group_name :: string
  group_subjects :: "string list"
  group_size :: int

record TimetableConfig =
  days :: int
  slots_per_day :: int
  subjects :: "string list"
  groups :: "StudentGroup list"
  random_seed :: "int option"

definition total_slots :: "TimetableConfig \<Rightarrow> int" where
  "total_slots c = days c * slots_per_day c"

record ExamSlot =
  day :: int
  slot :: int
  subject :: string

record TimetableResult =
  assignments :: "ExamSlot list"
  config :: TimetableConfig

record Hall =
  name :: string
  capacity :: int

record HallConfig =
  halls :: "Hall list"
  per_subject_limit :: int

definition total_capacity :: "HallConfig \<Rightarrow> int" where
  "total_capacity hc = sum_list (map capacity (halls hc))"

record HallAssignment =
  hall_name :: string
  ha_day :: int
  ha_slot :: int
  allocations :: "(string \<times> int) list"

record HallAllocationResult =
  hall_assignments :: "HallAssignment list"
  timetable :: TimetableResult
  hall_config :: HallConfig

text \<open>
  The checks of the dataclasses' \<open>__post_init__\<close> methods, which raise \<open>ValueError\<close>
  when they fail: an object of the type exists only when they hold.
\<close>

definition StudentGroup_post_init :: "StudentGroup \<Rightarrow> bool" where
  "StudentGroup_post_init g \<longleftrightarrow> \<not> group_size g \<le> 0 \<and> group_subjects g \<noteq> []"

definition TimetableConfig_post_init :: "TimetableConfig \<Rightarrow> bool" where
  "TimetableConfig_post_init c \<longleftrightarrow>
     \<not> days c \<le> 0 \<and> \<not> slots_per_day c \<le> 0 \<and> subjects c \<noteq> [] \<and> groups c \<noteq> [] \<and>
     \<not> length (subjects c) \<noteq> card (set (subjects c))"

definition Hall_post_init :: "Hall \<Rightarrow> bool" where
  "Hall_post_init h \<longleftrightarrow> \<not> capacity h \<le> 0"

definition HallConfig_post_init :: "HallConfig \<Rightarrow> bool" where
  "HallConfig_post_init hc \<longleftrightarrow> halls hc \<noteq> [] \<and> \<not> per_subject_limit hc \<le> 0"

text \<open>
  Exceptions are values. \<open>exc_class\<close> is the class of the raised object; the messages
  built by f-strings are kept as their template with its arguments, and each
  \<open>diagnostics\<close> dictionary as a constructor with the dictionary's entries.
\<close>

datatype exc_class =
    NoSolutionError
  | InsufficientSlotsError
  | ConflictError
  | HallAllocationError
  | InsufficientHallCapacityError
  | ValidationError
  | KeyError

datatype validation_error =
    Insufficient_slots int int
  | Subject_not_assigned_to_any_group string
  | Subject_in_groups_but_not_in_subject_list string

datatype message =
    Invalid_configuration
  | Cannot_fit_subjects_into_slots int int
  | No_valid_timetable_found_after_exhaustive_search
  | Insufficient_hall_capacity_for_slot int int
  | Missing_key string

datatype diagnostics =
    Validation_errors "validation_error list"
  | Slots_diag int int int
  | Search_diag nat int "(string \<times> string list) list"
  | Hall_diag int int "(string \<times> int) list"
  | No_diag

record exn =
  exn_class :: exc_class
  exn_message :: message
  exn_diagnostics :: diagnostics

definition raise :: "exc_class \<Rightarrow> message \<Rightarrow> diagnostics \<Rightarrow> exn + 'a" where
  "raise c m d = Inl \<lparr>exn_class = c, exn_message = m, exn_diagnostics = d\<rparr>"

text \<open>The entries of the diagnostics dictionaries, by their keys.\<close>

fun subjects_count :: "diagnostics \<Rightarrow> int option" where
  "subjects_count (Slots_diag n t d) = Some n"
| "subjects_count _ = None"

fun diag_total_slots :: "diagnostics \<Rightarrow> int option" where
  "diag_total_slots (Slots_diag n t d) = Some t"
| "diag_total_slots _ = None"

fun deficit :: "diagnostics \<Rightarrow> int option" where
  "deficit (Slots_diag n t d) = Some d"
| "deficit _ = None"

fun remaining_students :: "diagnostics \<Rightarrow> int option" where
  "remaining_students (Hall_diag r t s) = Some r"
| "remaining_students _ = None"

fun diag_total_capacity :: "diagnostics \<Rightarrow> int option" where
  "diag_total_capacity (Hall_diag r t s) = Some t"
| "diag_total_capacity _ = None"

section \<open>Helpers for Python built-ins\<close>

text \<open>
  \<open>s.add(x)\<close> on a set kept as a duplicate-free list, in the order of insertion. Python
  iterates a set of strings in the order of its hash table; a list built by iterating such
  a set (the last group of errors of \<open>validate_config\<close>, the neighbour lists of the
  conflict graph) has the elements of the list given here, possibly in another order.
\<close>

definition set_add :: "'a \<Rightarrow> 'a list \<Rightarrow> 'a list" where
  "set_add x xs = (if x \<in> set xs then xs else xs @ [x])"

text \<open>
  \<open>sorted(xs, key=k, reverse=True)\<close> and \<open>xs.sort(key=k, reverse=True)\<close>: CPython
  reverses the list, sorts it stably in ascending key order and reverses the result.
\<close>

definition sorted_reverse :: "('a \<Rightarrow> 'k::linorder) \<Rightarrow> 'a list \<Rightarrow> 'a list" where
  "sorted_reverse k xs = rev (sort_key k (rev xs))"

text \<open>\<open>range(n)\<close>.\<close>

definition py_range :: "int \<Rightarrow> int list" where
  "py_range n = [0..n - 1]"

section \<open>Conflict graph and validation (core/utils.py)\<close>

type_synonym conflict_graph = "string \<rightharpoonup> string list"

definition add_subject_conflicts :: "string list \<Rightarrow> conflict_graph \<Rightarrow> string \<Rightarrow> conflict_graph" where
  "add_subject_conflicts gsubjects conflicts subj =
     (let cur = (case conflicts subj of None \<Rightarrow> [] | Some xs \<Rightarrow> xs)
      in conflicts(subj \<mapsto>
           foldl (\<lambda>acc other_subject. if other_subject \<noteq> subj then set_add other_subject acc else acc)
             cur gsubjects))"

definition build_conflict_graph :: "StudentGroup list \<Rightarrow> conflict_graph" where
  "build_conflict_graph gs =
     foldl (\<lambda>conflicts g. foldl (add_subject_conflicts (group_subjects g)) conflicts (group_subjects g))
       Map.empty gs"

definition conflicts_get :: "conflict_graph \<Rightarrow> string \<Rightarrow> string list" where
  "conflicts_get conflicts subj = (case conflicts subj of None \<Rightarrow> [] | Some xs \<Rightarrow> xs)"

definition count_conflicts :: "string \<Rightarrow> conflict_graph \<Rightarrow> nat" where
  "count_conflicts subj conflicts = length (conflicts_get conflicts subj)"

definition all_group_subjects :: "StudentGroup list \<Rightarrow> string list" where
  "all_group_subjects gs = foldl (\<lambda>acc g. foldl (\<lambda>a s. set_add s a) acc (group_subjects g)) [] gs"

definition validate_config :: "TimetableConfig \<Rightarrow> bool \<times> validation_error list" where
  "validate_config c =
     (let errors1 = (if int (length (subjects c)) > total_slots c
                     then [Insufficient_slots (int (length (subjects c))) (total_slots c)] else []);
          ags = all_group_subjects (groups c);
          errors2 = map Subject_not_assigned_to_any_group
                      (filter (\<lambda>s. s \<notin> set ags) (subjects c));
          errors3 = map Subject_in_groups_but_not_in_subject_list
                      (filter (\<lambda>s. s \<notin> set (subjects c)) ags);
          errors = errors1 @ errors2 @ errors3
      in (length errors = 0, errors))"

definition get_subjects_in_slot ::
  "StudentGroup list \<Rightarrow> string \<Rightarrow> int \<Rightarrow> int \<Rightarrow> (string \<times> cell) list \<Rightarrow> string list" where
  "get_subjects_in_slot gs subj d s current_assignment =
     foldl (\<lambda>acc (other_subject, (assigned_day, assigned_slot)).
              if assigned_day = d \<and> assigned_slot = s then set_add other_subject acc else acc)
       [subj] current_assignment"

definition check_group_conflicts :: "StudentGroup list \<Rightarrow> string list \<Rightarrow> bool" where
  "check_group_conflicts gs subjects_in_slot =
     list_ex (\<lambda>g. length (filter (\<lambda>s. s \<in> set subjects_in_slot) (group_subjects g)) > 1) gs"

section \<open>Timetable scheduler (core/scheduler.py)\<close>

text \<open>
  The pseudo-random generator of the \<open>random\<close> module is process-wide state of type
  \<open>'g\<close>. It is not part of the repository, so it is a parameter: \<open>seed_fn\<close> is
  \<open>random.seed\<close>, and \<open>shuffle\<close> stands for \<open>list(s)\<close> followed by
  \<open>random.shuffle\<close>, returning the shuffled list and the next generator state. A domain
  (a Python set of tuples) is a duplicate-free list.
\<close>

type_synonym 'g shuffle = "'g \<Rightarrow> cell list \<Rightarrow> cell list \<times> 'g"

definition shuffle_permutes :: "'g shuffle \<Rightarrow> bool" where
  "shuffle_permutes sh \<longleftrightarrow> (\<forall>g xs. mset (fst (sh g xs)) = mset xs)"

record 'g TimetableScheduler =
  assignment :: "(string \<times> cell) list"
  domains :: "string \<rightharpoonup> cell list"
  backtrack_count :: nat
  rng :: 'g

definition init_scheduler :: "(int \<Rightarrow> 'g) \<Rightarrow> 'g \<Rightarrow> TimetableConfig \<Rightarrow> 'g TimetableScheduler" where
  "init_scheduler seed_fn g c =
     \<lparr>assignment = [], domains = Map.empty, backtrack_count = 0,
      rng = (case random_seed c of None \<Rightarrow> g | Some s \<Rightarrow> seed_fn s)\<rparr>"

definition is_consistent ::
  "StudentGroup list \<Rightarrow> (string \<times> cell) list \<Rightarrow> string \<Rightarrow> int \<Rightarrow> int \<Rightarrow> bool" where
  "is_consistent gs asg subj d s =
     (if list_ex (\<lambda>(assigned_subject, (assigned_day, assigned_slot)).
                    assigned_day = d \<and> assigned_slot = s) asg
      then False
      else \<not> check_group_conflicts gs (get_subjects_in_slot gs subj d s asg))"

text \<open>
  \<open>_forward_check\<close>: the loop over the neighbours of the subject. \<open>Inl\<close> is the
  \<open>KeyError\<close> of \<open>self.domains[conflicting_subject]\<close>.
\<close>

fun forward_check ::
  "string list \<Rightarrow> (string \<times> cell) list \<Rightarrow> cell \<Rightarrow> (string \<rightharpoonup> cell list) \<Rightarrow>
   exn + (bool \<times> (string \<rightharpoonup> cell list))" where
  "forward_check [] asg c doms = Inr (True, doms)"
| "forward_check (conflicting_subject # rest) asg c doms =
     (if conflicting_subject \<notin> fst ` set asg then
        (case doms conflicting_subject of
           None \<Rightarrow> raise KeyError (Missing_key conflicting_subject) No_diag
         | Some dm \<Rightarrow>
             (let dm' = (if c \<in> set dm then removeAll c dm else dm);
                  doms' = doms(conflicting_subject \<mapsto> dm')
              in if dm' = [] then Inr (False, doms') else forward_check rest asg c doms'))
      else forward_check rest asg c doms)"

text \<open>
  \<open>_backtrack\<close> and the \<open>for\<close> loop of its body. The result is the returned flag with
  the scheduler's state after the call.
\<close>

function backtrack ::
    "'g shuffle \<Rightarrow> StudentGroup list \<Rightarrow> conflict_graph \<Rightarrow> string list \<Rightarrow> nat \<Rightarrow>
     'g TimetableScheduler \<Rightarrow> exn + (bool \<times> 'g TimetableScheduler)"
  and try_slots ::
    "'g shuffle \<Rightarrow> StudentGroup list \<Rightarrow> conflict_graph \<Rightarrow> string list \<Rightarrow> nat \<Rightarrow>
     cell list \<Rightarrow> 'g TimetableScheduler \<Rightarrow> exn + (bool \<times> 'g TimetableScheduler)" where
  "backtrack sh gs cf subjs index st =
     (let st1 = st\<lparr>backtrack_count := backtrack_count st + 1\<rparr> in
      if index \<ge> length subjs then Inr (True, st1)
      else (case domains st1 (subjs ! index) of
              None \<Rightarrow> raise KeyError (Missing_key (subjs ! index)) No_diag
            | Some dm \<Rightarrow>
                try_slots sh gs cf subjs index (fst (sh (rng st1) dm))
                  (st1\<lparr>rng := snd (sh (rng st1) dm)\<rparr>)))"
| "try_slots sh gs cf subjs index [] st = Inr (False, st)"
| "try_slots sh gs cf subjs index (c # rest) st =
     (if index < length subjs \<and> is_consistent gs (assignment st) (subjs ! index) (fst c) (snd c) then
        (let st1 = st\<lparr>assignment := AList.update (subjs ! index) c (assignment st)\<rparr>;
             saved_domains = domains st1
         in case forward_check (conflicts_get cf (subjs ! index)) (assignment st1) c (domains st1) of
              Inl e \<Rightarrow> Inl e
            | Inr (ok, doms') \<Rightarrow>
                (if ok then
                   (case backtrack sh gs cf subjs (index + 1) (st1\<lparr>domains := doms'\<rparr>) of
                      Inl e \<Rightarrow> Inl e
                    | Inr (found, st2) \<Rightarrow>
                        if found then Inr (True, st2)
                        else if subjs ! index \<in> fst ` set (assignment st2) then
                          try_slots sh gs cf subjs index rest
                            (st2\<lparr>assignment := AList.delete (subjs ! index) (assignment st2),
                                 domains := saved_domains\<rparr>)
                        else raise KeyError (Missing_key (subjs ! index)) No_diag)
                 else
                   try_slots sh gs cf subjs index rest
                     (st1\<lparr>assignment := AList.delete (subjs ! index) (assignment st1),
                          domains := saved_domains\<rparr>)))
      else try_slots sh gs cf subjs index rest st)"
  by pat_completeness auto
termination
  by (relation "inv_image (less_than <*lex*> less_than)
        (\<lambda>x. case x of
           Inl (sh, gs, cf, subjs, index, st) \<Rightarrow> (2 * (length subjs - index) + 1, 0)
         | Inr (sh, gs, cf, subjs, index, cs, st) \<Rightarrow> (2 * (length subjs - index), length cs))")
     auto

definition all_slots :: "TimetableConfig \<Rightarrow> cell list" where
  "all_slots c = concat (map (\<lambda>d. map (\<lambda>s. (d, s)) (py_range (slots_per_day c))) (py_range (days c)))"

definition variable_order :: "TimetableConfig \<Rightarrow> conflict_graph \<Rightarrow> string list" where
  "variable_order c cf = sorted_reverse (\<lambda>s. count_conflicts s cf) (subjects c)"

definition init_domains :: "TimetableConfig \<Rightarrow> (string \<rightharpoonup> cell list)" where
  "init_domains c = foldl (\<lambda>doms subj. doms(subj \<mapsto> all_slots c)) Map.empty (subjects c)"

text \<open>
  \<open>generate_timetable\<close>: the module-level entry point, which constructs the scheduler
  (seeding the generator when the configuration carries a seed) and runs its method.
  \<open>g\<close> is the state of the process-wide generator at the call.
\<close>

definition generate_timetable ::
  "'g shuffle \<Rightarrow> (int \<Rightarrow> 'g) \<Rightarrow> 'g \<Rightarrow> TimetableConfig \<Rightarrow> exn + TimetableResult" where
  "generate_timetable sh seed_fn g c =
     (let self = init_scheduler seed_fn g c;
          conflicts = build_conflict_graph (groups c);
          (is_valid, errors) = validate_config c
      in if \<not> is_valid then raise NoSolutionError Invalid_configuration (Validation_errors errors)
         else if int (length (subjects c)) > total_slots c then
           raise InsufficientSlotsError
             (Cannot_fit_subjects_into_slots (int (length (subjects c))) (total_slots c))
             (Slots_diag (int (length (subjects c))) (total_slots c)
                (int (length (subjects c)) - total_slots c))
         else
           (let self1 = self\<lparr>domains := init_domains c\<rparr>;
                subjs = variable_order c conflicts
            in case backtrack sh (groups c) conflicts subjs 0 self1 of
                 Inl e \<Rightarrow> Inl e
               | Inr (found, self2) \<Rightarrow>
                   if \<not> found then
                     raise NoSolutionError No_valid_timetable_found_after_exhaustive_search
                       (Search_diag (backtrack_count self2) (int (length (subjects c)))
                          (map (\<lambda>s. (s, conflicts_get conflicts s)) (subjects c)))
                   else
                     Inr \<lparr>assignments =
                            map (\<lambda>(subj, (d, s)). \<lparr>day = d, slot = s, subject = subj\<rparr>) (assignment self2),
                          config = c\<rparr>))"

section \<open>Hall allocator (core/scheduler.py)\<close>

definition positive_count :: "(string \<times> int) list \<Rightarrow> nat" where
  "positive_count remaining = length (filter (\<lambda>(s, c). c > 0) remaining)"

text \<open>
  The \<open>for\<close> loop filling one hall: it walks the snapshot \<open>subjects_with_students\<close>,
  carrying \<open>remaining\<close>, \<open>hall_capacity_used\<close> and \<open>hall_allocation\<close>.
\<close>

definition allocate_amount :: "int \<Rightarrow> int \<Rightarrow> (string \<times> int) list \<Rightarrow> int \<Rightarrow> int \<Rightarrow> int" where
  "allocate_amount cap limit remaining used cnt =
     (let available_in_hall = cap - used;
          amount = min cnt (min limit available_in_hall)
      in if positive_count remaining = 1 then min cnt available_in_hall else amount)"

fun fill_hall ::
  "int \<Rightarrow> int \<Rightarrow> (string \<times> int) list \<Rightarrow> (string \<times> int) list \<Rightarrow> int \<Rightarrow> (string \<times> int) list \<Rightarrow>
   (string \<times> int) list \<times> (string \<times> int) list" where
  "fill_hall cap limit [] remaining used hall_allocation = (hall_allocation, remaining)"
| "fill_hall cap limit ((subj, cnt) # rest) remaining used hall_allocation =
     (if used \<ge> cap then (hall_allocation, remaining)
      else
        (let amount = allocate_amount cap limit remaining used cnt
         in if amount > 0 then
              fill_hall cap limit rest (AList.map_entry subj (\<lambda>v. v - amount) remaining)
                (used + amount) (hall_allocation @ [(subj, amount)])
            else fill_hall cap limit rest remaining used hall_allocation))"

definition subjects_with_students :: "(string \<times> int) list \<Rightarrow> (string \<times> int) list" where
  "subjects_with_students remaining = sorted_reverse snd (filter (\<lambda>(s, c). c > 0) remaining)"

text \<open>The \<open>while\<close> loop of \<open>_greedy_allocate\<close>; \<open>hs\<close> is \<open>sorted_halls[hall_index:]\<close>.\<close>

fun greedy_loop ::
  "HallConfig \<Rightarrow> int \<Rightarrow> int \<Rightarrow> Hall list \<Rightarrow> (string \<times> int) list \<Rightarrow> HallAssignment list \<Rightarrow>
   exn + HallAssignment list" where
  "greedy_loop hc d s [] remaining allocs =
     (if list_ex (\<lambda>(subj, c). c > 0) remaining then
        raise InsufficientHallCapacityError (Insufficient_hall_capacity_for_slot (d + 1) (s + 1))
          (Hall_diag (sum_list (map snd remaining)) (total_capacity hc) remaining)
      else Inr allocs)"
| "greedy_loop hc d s (hall # hs) remaining allocs =
     (if list_ex (\<lambda>(subj, c). c > 0) remaining then
        (let (hall_allocation, remaining') =
               fill_hall (capacity hall) (per_subject_limit hc) (subjects_with_students remaining)
                 remaining 0 []
         in greedy_loop hc d s hs remaining'
              (if hall_allocation \<noteq> [] then
                 allocs @ [\<lparr>hall_name = name hall, ha_day = d, ha_slot = s,
                            allocations = hall_allocation\<rparr>]
               else allocs))
      else Inr allocs)"

definition sorted_halls :: "HallConfig \<Rightarrow> Hall list" where
  "sorted_halls hc = sorted_reverse capacity (halls hc)"

definition greedy_allocate ::
  "HallConfig \<Rightarrow> (string \<times> int) list \<Rightarrow> int \<Rightarrow> int \<Rightarrow> exn + HallAssignment list" where
  "greedy_allocate hc subject_students d s =
     greedy_loop hc d s (sorted_halls hc) subject_students []"

definition subjects_in_slot :: "TimetableResult \<Rightarrow> int \<Rightarrow> int \<Rightarrow> string list" where
  "subjects_in_slot tt d s =
     map subject (filter (\<lambda>a. day a = d \<and> slot a = s) (assignments tt))"

definition subject_students :: "StudentGroup list \<Rightarrow> string list \<Rightarrow> (string \<times> int) list" where
  "subject_students gs sis =
     foldl (\<lambda>acc g.
              foldl (\<lambda>acc' subj.
                       if subj \<in> set (group_subjects g)
                       then map_default subj (group_size g) (\<lambda>v. v + group_size g) acc'
                       else acc')
                acc sis)
       [] gs"

definition allocate_slot :: "TimetableResult \<Rightarrow> HallConfig \<Rightarrow> int \<Rightarrow> int \<Rightarrow> exn + HallAssignment list" where
  "allocate_slot tt hc d s =
     (let sis = subjects_in_slot tt d s
      in if sis = [] then Inr []
         else greedy_allocate hc (subject_students (groups (config tt)) sis) d s)"

fun allocate_cells ::
  "TimetableResult \<Rightarrow> HallConfig \<Rightarrow> cell list \<Rightarrow> HallAssignment list \<Rightarrow> exn + HallAssignment list" where
  "allocate_cells tt hc [] acc = Inr acc"
| "allocate_cells tt hc ((d, s) # cs) acc =
     (case allocate_slot tt hc d s of
        Inl e \<Rightarrow> Inl e
      | Inr slot_assignments \<Rightarrow> allocate_cells tt hc cs (acc @ slot_assignments))"

definition allocate_halls :: "TimetableResult \<Rightarrow> HallConfig \<Rightarrow> exn + HallAllocationResult" where
  "allocate_halls tt hc =
     (case allocate_cells tt hc (all_slots (config tt)) [] of
        Inl e \<Rightarrow> Inl e
      | Inr asgs \<Rightarrow> Inr \<lparr>hall_assignments = asgs, timetable = tt, hall_config = hc\<rparr>)"

text \<open>The \<open>/api/generate\<close> handler's two calls: the timetable, then the halls.\<close>

definition generate_schedule ::
  "'g shuffle \<Rightarrow> (int \<Rightarrow> 'g) \<Rightarrow> 'g \<Rightarrow> TimetableConfig \<Rightarrow> HallConfig \<Rightarrow> exn + HallAllocationResult" where
  "generate_schedule sh seed_fn g c hc =
     (case generate_timetable sh seed_fn g c of
        Inl e \<Rightarrow> Inl e
      | Inr tt \<Rightarrow> allocate_halls tt hc)"

section \<open>The moment of an allocation\<close>

text \<open>
  The loop that fills one hall, recording each \<open>hall_allocation.append\<close> together with
  the state in which \<open>allocate_amount\<close> was computed: the dictionary \<open>remaining\<close> and
  \<open>available_in_hall\<close>. \<open>fill_hall_trace\<close> follows \<open>fill_hall\<close> branch by branch.
\<close>

record alloc_event =
  ev_subject :: string
  ev_amount :: int
  ev_remaining :: "(string \<times> int) list"
  ev_available :: int

fun fill_hall_trace ::
  "int \<Rightarrow> int \<Rightarrow> (string \<times> int) list \<Rightarrow> (string \<times> int) list \<Rightarrow> int \<Rightarrow> alloc_event list" where
  "fill_hall_trace cap limit [] remaining used = []"
| "fill_hall_trace cap limit ((subj, cnt) # rest) remaining used =
     (if used \<ge> cap then []
      else
        (let amount = allocate_amount cap limit remaining used cnt
         in if amount > 0 then
              \<lparr>ev_subject = subj, ev_amount = amount, ev_remaining = remaining,
               ev_available = cap - used\<rparr> #
              fill_hall_trace cap limit rest (AList.map_entry subj (\<lambda>v. v - amount) remaining)
                (used + amount)
            else fill_hall_trace cap limit rest remaining used))"

definition recorded :: "alloc_event \<Rightarrow> string \<times> int" where
  "recorded e = (ev_subject e, ev_amount e)"

section \<open>Concrete inputs\<close>

text \<open>
  Two stand-ins for the generator, used to run the model: \<open>keep_order\<close> leaves the
  list as it is, \<open>rotate_by_state\<close> rotates it by the generator's state; both advance
  the state. \<open>seed_state\<close> makes the seed the state.
\<close>

definition keep_order :: "int shuffle" where
  "keep_order g xs = (xs, g + 1)"

definition rotate_by_state :: "int shuffle" where
  "rotate_by_state g xs = (rotate (nat g) xs, g + 1)"

definition seed_state :: "int \<Rightarrow> int" where
  "seed_state s = s"

definition raised_class :: "exn + 'a \<Rightarrow> exc_class option" where
  "raised_class r = (case r of Inl e \<Rightarrow> Some (exn_class e) | Inr v \<Rightarrow> None)"

text \<open>Two subjects, one slot: more subjects than slots.\<close>

definition two_subjects_one_slot :: TimetableConfig where
  "two_subjects_one_slot =
     \<lparr>days = 1, slots_per_day = 1, subjects = [''M'', ''E''],
      groups = [\<lparr>group_name = ''g1'', group_subjects = [''M'', ''E''], group_size = 10\<rparr>],
      random_seed = None\<rparr>"

text \<open>The subject \<open>E\<close> of the subject list is claimed by no group.\<close>

definition unclaimed_subject_config :: TimetableConfig where
  "unclaimed_subject_config =
     \<lparr>days = 1, slots_per_day = 2, subjects = [''M'', ''E''],
      groups = [\<lparr>group_name = ''g1'', group_subjects = [''M''], group_size = 10\<rparr>],
      random_seed = None\<rparr>"

text \<open>
  A structurally valid configuration on which the search is exhausted: the group lists its
  subject twice, so \<open>check_group_conflicts\<close> counts two subjects of the group in any slot.
\<close>

definition repeated_subject_config :: TimetableConfig where
  "repeated_subject_config =
     \<lparr>days = 1, slots_per_day = 1, subjects = [''M''],
      groups = [\<lparr>group_name = ''g1'', group_subjects = [''M'', ''M''], group_size = 10\<rparr>],
      random_seed = None\<rparr>"

section \<open>Demand and seats\<close>

text \<open>
  The demand of a subject as the specification words it: the sum of \<open>size\<close> over the
  groups enrolled in the subject. The code's own computation is \<open>subject_students\<close>.
\<close>

definition spec_demand :: "StudentGroup list \<Rightarrow> string \<Rightarrow> int" where
  "spec_demand gs subj = sum_list (map group_size (filter (\<lambda>g. subj \<in> set (group_subjects g)) gs))"

text \<open>The seats a list of hall assignments gives to a subject.\<close>

definition seats :: "string \<Rightarrow> (string \<times> int) list \<Rightarrow> int" where
  "seats subj allocs = sum_list (map snd (filter (\<lambda>(s, n). s = subj) allocs))"

definition seated :: "string \<Rightarrow> HallAssignment list \<Rightarrow> int" where
  "seated subj asgs = sum_list (map (\<lambda>a. seats subj (allocations a)) asgs)"

definition in_cell :: "int \<Rightarrow> int \<Rightarrow> HallAssignment list \<Rightarrow> HallAssignment list" where
  "in_cell d s asgs = filter (\<lambda>a. ha_day a = d \<and> ha_slot a = s) asgs"

section \<open>Concrete inputs of the allocator\<close>

text \<open>
  One slot with two subjects: \<open>M\<close> and \<open>E\<close>, 40 students each, both scheduled in the
  only slot (the timetable is given to \<open>allocate_halls\<close> by its caller).
\<close>

definition mixing_timetable :: TimetableResult where
  "mixing_timetable =
     \<lparr>assignments = [\<lparr>day = 0, slot = 0, subject = ''M''\<rparr>, \<lparr>day = 0, slot = 0, subject = ''E''\<rparr>],
      config = \<lparr>days = 1, slots_per_day = 1, subjects = [''M'', ''E''],
                groups = [\<lparr>group_name = ''g1'', group_subjects = [''M''], group_size = 40\<rparr>,
                          \<lparr>group_name = ''g2'', group_subjects = [''E''], group_size = 40\<rparr>],
                random_seed = None\<rparr>\<rparr>"

definition two_halls :: HallConfig where
  "two_halls = \<lparr>halls = [\<lparr>name = ''H1'', capacity = 50\<rparr>, \<lparr>name = ''H2'', capacity = 50\<rparr>],
                per_subject_limit = 30\<rparr>"

definition one_hall :: HallConfig where
  "one_hall = \<lparr>halls = [\<lparr>name = ''H1'', capacity = 100\<rparr>], per_subject_limit = 30\<rparr>"

text \<open>What \<open>allocate_halls\<close> returns for this timetable with two halls of 50 seats.\<close>

definition mixing_first_hall :: HallAssignment where
  "mixing_first_hall =
     \<lparr>hall_name = ''H1'', ha_day = 0, ha_slot = 0, allocations = [(''M'', 30), (''E'', 20)]\<rparr>"

definition mixing_second_hall :: HallAssignment where
  "mixing_second_hall =
     \<lparr>hall_name = ''H2'', ha_day = 0, ha_slot = 0, allocations = [(''E'', 20), (''M'', 10)]\<rparr>"

definition mixing_allocation :: HallAllocationResult where
  "mixing_allocation =
     \<lparr>hall_assignments = [mixing_first_hall, mixing_second_hall],
      timetable = mixing_timetable, hall_config = two_halls\<rparr>"

section \<open>Invariant of the search\<close>

text \<open>
  What holds of the scheduler's state whenever \<open>_backtrack\<close> is entered at \<open>index\<close>: the
  keys of \<open>self.assignment\<close> are the first \<open>index\<close> subjects of the list, in its order; the
  assigned cells are pairwise different and belong to \<open>S\<close>, as do the cells of every domain.
  \<open>search_post\<close> is what holds when a call returns: on \<open>True\<close> every subject of the list is
  assigned, on \<open>False\<close> the assignment and the domains are those at the call.
\<close>

definition search_inv :: "cell set \<Rightarrow> string list \<Rightarrow> nat \<Rightarrow> 'g TimetableScheduler \<Rightarrow> bool" where
  "search_inv S subjs index st \<longleftrightarrow>
     map fst (assignment st) = take index subjs \<and>
     distinct (map snd (assignment st)) \<and>
     snd ` set (assignment st) \<subseteq> S \<and>
     (\<forall>s dm. domains st s = Some dm \<longrightarrow> set dm \<subseteq> S)"

definition search_post ::
  "cell set \<Rightarrow> string list \<Rightarrow> 'g TimetableScheduler \<Rightarrow> bool \<Rightarrow> 'g TimetableScheduler \<Rightarrow> bool" where
  "search_post S subjs st found st' \<longleftrightarrow>
     (if found then search_inv S subjs (length subjs) st'
      else assignment st' = assignment st \<and> domains st' = domains st)"

section \<open>The conflict degree\<close>

text \<open>
  The conflict degree as the specification words it: the conflict graph has an undirected
  edge between every two distinct subjects of a group, and the degree of a subject is the
  number of its neighbours. The code's own count is \<open>count_conflicts\<close> on
  \<open>build_conflict_graph\<close>.
\<close>

definition spec_neighbours :: "StudentGroup list \<Rightarrow> string \<Rightarrow> string set" where
  "spec_neighbours gs s =
     (\<Union>g\<in>set gs. if s \<in> set (group_subjects g) then set (group_subjects g) - {s} else {})"

definition spec_conflict_degree :: "StudentGroup list \<Rightarrow> string \<Rightarrow> nat" where
  "spec_conflict_degree gs s = card (spec_neighbours gs s)"

section \<open>Further concrete inputs\<close>

text \<open>
  Three subjects in three slots; \<open>B\<close> and \<open>C\<close> share a group, \<open>A\<close> is alone in its
  group and comes first in the subject list.
\<close>

definition ordering_config :: TimetableConfig where
  "ordering_config =
     \<lparr>days = 1, slots_per_day = 3, subjects = [''A'', ''B'', ''C''],
      groups = [\<lparr>group_name = ''g1'', group_subjects = [''A''], group_size = 10\<rparr>,
                \<lparr>group_name = ''g2'', group_subjects = [''B'', ''C''], group_size = 20\<rparr>],
      random_seed = Some 7\<rparr>"

definition ordering_timetable :: TimetableResult where
  "ordering_timetable =
     \<lparr>assignments = [\<lparr>day = 0, slot = 0, subject = ''B''\<rparr>, \<lparr>day = 0, slot = 1, subject = ''C''\<rparr>,
                     \<lparr>day = 0, slot = 2, subject = ''A''\<rparr>],
      config = ordering_config\<rparr>"

text \<open>
  The same configuration without a seed, and what the scheduler returns for it when the
  generator rotates the domains, starting in state 1.
\<close>

definition ordering_timetable_unseeded :: TimetableResult where
  "ordering_timetable_unseeded =
     \<lparr>assignments = [\<lparr>day = 0, slot = 1, subject = ''B''\<rparr>, \<lparr>day = 0, slot = 0, subject = ''C''\<rparr>,
                     \<lparr>day = 0, slot = 2, subject = ''A''\<rparr>],
      config = ordering_config\<lparr>random_seed := None\<rparr>\<rparr>"

text \<open>
  Two slots with one subject each: 70 students sit \<open>M\<close> in the first slot, 10 sit \<open>E\<close> in
  the second. The smaller hall comes first in the configuration. \<open>two_slot_allocation\<close> is
  what \<open>allocate_halls\<close> returns.
\<close>

definition two_slot_timetable :: TimetableResult where
  "two_slot_timetable =
     \<lparr>assignments = [\<lparr>day = 0, slot = 1, subject = ''E''\<rparr>, \<lparr>day = 0, slot = 0, subject = ''M''\<rparr>],
      config = \<lparr>days = 1, slots_per_day = 2, subjects = [''M'', ''E''],
                groups = [\<lparr>group_name = ''g1'', group_subjects = [''M''], group_size = 70\<rparr>,
                          \<lparr>group_name = ''g2'', group_subjects = [''E''], group_size = 10\<rparr>],
                random_seed = None\<rparr>\<rparr>"

definition small_big_halls :: HallConfig where
  "small_big_halls =
     \<lparr>halls = [\<lparr>name = ''Small'', capacity = 20\<rparr>, \<lparr>name = ''Big'', capacity = 60\<rparr>],
      per_subject_limit = 30\<rparr>"

definition two_slot_allocation :: HallAllocationResult where
  "two_slot_allocation =
     \<lparr>hall_assignments =
        [\<lparr>hall_name = ''Big'', ha_day = 0, ha_slot = 0, allocations = [(''M'', 60)]\<rparr>,
         \<lparr>hall_name = ''Small'', ha_day = 0, ha_slot = 0, allocations = [(''M'', 10)]\<rparr>,
         \<lparr>hall_name = ''Big'', ha_day = 0, ha_slot = 1, allocations = [(''E'', 10)]\<rparr>],
      timetable = two_slot_timetable, hall_config = small_big_halls\<rparr>"

section \<open>Counts and the demand of a slot\<close>

text \<open>\<open>d.get(k, 0)\<close> on a dictionary of counts.\<close>

definition count_of :: "string \<Rightarrow> (string \<times> int) list \<Rightarrow> int" where
  "count_of k d = (case map_of d k of None \<Rightarrow> 0 | Some v \<Rightarrow> v)"

text \<open>
  The total demand of a slot as the specification words it: the demands of the subjects
  scheduled in the slot, added up.
\<close>

definition spec_slot_demand :: "TimetableResult \<Rightarrow> int \<Rightarrow> int \<Rightarrow> int" where
  "spec_slot_demand tt d s =
     sum_list (map (spec_demand (groups (config tt))) (subjects_in_slot tt d s))"

section \<open>Concrete inputs with too few seats, and with a seed\<close>

text \<open>
  One hall of 60 seats. In \<open>short_config\<close> both subjects have more students than the hall
  has seats; \<open>short_timetable\<close> is the timetable the scheduler returns for it. In
  \<open>late_shortage_timetable\<close> only the subject of the second slot has. In
  \<open>crowded_timetable\<close> two subjects of 60 students share the only slot.
\<close>

definition hall_of_60 :: HallConfig where
  "hall_of_60 = \<lparr>halls = [\<lparr>name = ''H1'', capacity = 60\<rparr>], per_subject_limit = 30\<rparr>"

definition short_config :: TimetableConfig where
  "short_config =
     \<lparr>days = 1, slots_per_day = 2, subjects = [''M'', ''E''],
      groups = [\<lparr>group_name = ''g1'', group_subjects = [''M''], group_size = 70\<rparr>,
                \<lparr>group_name = ''g2'', group_subjects = [''E''], group_size = 80\<rparr>],
      random_seed = Some 1\<rparr>"

definition short_timetable :: TimetableResult where
  "short_timetable =
     \<lparr>assignments = [\<lparr>day = 0, slot = 0, subject = ''M''\<rparr>, \<lparr>day = 0, slot = 1, subject = ''E''\<rparr>],
      config = short_config\<rparr>"

definition late_shortage_timetable :: TimetableResult where
  "late_shortage_timetable =
     \<lparr>assignments = [\<lparr>day = 0, slot = 0, subject = ''M''\<rparr>, \<lparr>day = 0, slot = 1, subject = ''E''\<rparr>],
      config = \<lparr>days = 1, slots_per_day = 2, subjects = [''M'', ''E''],
                groups = [\<lparr>group_name = ''g1'', group_subjects = [''M''], group_size = 50\<rparr>,
                          \<lparr>group_name = ''g2'', group_subjects = [''E''], group_size = 80\<rparr>],
                random_seed = None\<rparr>\<rparr>"

definition crowded_timetable :: TimetableResult where
  "crowded_timetable =
     \<lparr>assignments = [\<lparr>day = 0, slot = 0, subject = ''M''\<rparr>, \<lparr>day = 0, slot = 0, subject = ''E''\<rparr>],
      config = \<lparr>days = 1, slots_per_day = 1, subjects = [''M'', ''E''],
                groups = [\<lparr>group_name = ''g1'', group_subjects = [''M''], group_size = 60\<rparr>,
                          \<lparr>group_name = ''g2'', group_subjects = [''E''], group_size = 60\<rparr>],
                random_seed = None\<rparr>\<rparr>"

text \<open>
  What the scheduler and the allocator return for \<open>ordering_config\<close>, whose seed is 7, when
  the generator rotates the domains.
\<close>

definition ordering_timetable_seeded :: TimetableResult where
  "ordering_timetable_seeded =
     \<lparr>assignments = [\<lparr>day = 0, slot = 1, subject = ''B''\<rparr>, \<lparr>day = 0, slot = 0, subject = ''C''\<rparr>,
                     \<lparr>day = 0, slot = 2, subject = ''A''\<rparr>],
      config = ordering_config\<rparr>"

definition ordering_allocation :: HallAllocationResult where
  "ordering_allocation =
     \<lparr>hall_assignments =
        [\<lparr>hall_name = ''Big'', ha_day = 0, ha_slot = 0, allocations = [(''C'', 20)]\<rparr>,
         \<lparr>hall_name = ''Big'', ha_day = 0, ha_slot = 1, allocations = [(''B'', 20)]\<rparr>,
         \<lparr>hall_name = ''Big'', ha_day = 0, ha_slot = 2, allocations = [(''A'', 10)]\<rparr>],
      timetable = ordering_timetable_seeded, hall_config = small_big_halls\<rparr>"

text \<open>The timetable of the unseeded configuration when the generator starts in state 0.\<close>

definition ordering_timetable_unseeded_0 :: TimetableResult where
  "ordering_timetable_unseeded_0 =
     \<lparr>assignments = [\<lparr>day = 0, slot = 0, subject = ''B''\<rparr>, \<lparr>day = 0, slot = 2, subject = ''C''\<rparr>,
                     \<lparr>day = 0, slot = 1, subject = ''A''\<rparr>],
      config = ordering_config\<lparr>random_seed := None\<rparr>\<rparr>"

section \<open>Properties\<close>

subsection \<open>Validation and the error raised for it\<close>

lemma set_set_add [simp]: "set (set_add x xs) = insert x (set xs)"
  by (auto simp: set_add_def)

lemma set_foldl_set_add: "set (foldl (\<lambda>a s. set_add s a) acc xs) = set acc \<union> set xs"
  by (induction xs arbitrary: acc) auto

lemma set_all_group_subjects_from:
  "set (foldl (\<lambda>acc g. foldl (\<lambda>a s. set_add s a) acc (group_subjects g)) acc0 gs) =
     set acc0 \<union> (\<Union>g\<in>set gs. set (group_subjects g))"
  by (induction gs arbitrary: acc0) (auto simp: set_foldl_set_add)

lemma set_all_group_subjects:
  "set (all_group_subjects gs) = (\<Union>g\<in>set gs. set (group_subjects g))"
  by (simp add: all_group_subjects_def set_all_group_subjects_from)

lemma validate_config_errors:
  "snd (validate_config c) =
     (if int (length (subjects c)) > total_slots c
      then [Insufficient_slots (int (length (subjects c))) (total_slots c)] else []) @
     map Subject_not_assigned_to_any_group
       (filter (\<lambda>s. s \<notin> set (all_group_subjects (groups c))) (subjects c)) @
     map Subject_in_groups_but_not_in_subject_list
       (filter (\<lambda>s. s \<notin> set (subjects c)) (all_group_subjects (groups c)))"
  by (simp add: validate_config_def Let_def)

lemma validate_config_fst: "fst (validate_config c) \<longleftrightarrow> snd (validate_config c) = []"
  by (simp add: validate_config_def Let_def)

lemma generate_timetable_invalid:
  "snd (validate_config c) \<noteq> [] \<Longrightarrow>
   generate_timetable sh sd g c =
     raise NoSolutionError Invalid_configuration (Validation_errors (snd (validate_config c)))"
  by (simp add: generate_timetable_def validate_config_def Let_def)

text \<open>
  C2. With two subjects and one slot, \<open>generate_timetable\<close> does not raise
  \<open>InsufficientSlotsError\<close> with the diagnostics \<open>subjects_count\<close>, \<open>total_slots\<close>
  and \<open>deficit\<close>: \<open>validate_config\<close> reports the missing slots first, and the error
  raised is \<open>NoSolutionError\<close> with the message \<open>Invalid configuration\<close> and the
  validation errors as its only diagnostics, whatever the generator.
\<close>

theorem insufficient_slots_raised_as_invalid_configuration:
  "generate_timetable sh sd g two_subjects_one_slot =
     raise NoSolutionError Invalid_configuration (Validation_errors [Insufficient_slots 2 1])
   \<and> raised_class (generate_timetable sh sd g two_subjects_one_slot) \<noteq> Some InsufficientSlotsError
   \<and> deficit (Validation_errors [Insufficient_slots 2 1]) = None"
  by (simp add: generate_timetable_def validate_config_def two_subjects_one_slot_def total_slots_def
      all_group_subjects_def set_add_def raise_def raised_class_def)

text \<open>
  C8, as stated, fails: a configuration whose subject \<open>E\<close> is claimed by no group fails
  with the class \<open>NoSolutionError\<close>, which is also the class raised when the search is
  exhausted on a structurally valid configuration.
\<close>

theorem invalid_config_kind_counterexample:
  "raised_class (generate_timetable keep_order seed_state 0 unclaimed_subject_config)
     = Some NoSolutionError
   \<and> fst (validate_config repeated_subject_config)
   \<and> raised_class (generate_timetable keep_order seed_state 0 repeated_subject_config)
     = Some NoSolutionError"
  by (simp add: raised_class_def generate_timetable_def validate_config_def
      unclaimed_subject_config_def repeated_subject_config_def
      total_slots_def all_group_subjects_def set_add_def raise_def init_scheduler_def init_domains_def
      variable_order_def sorted_reverse_def build_conflict_graph_def add_subject_conflicts_def
      all_slots_def py_range_def keep_order_def is_consistent_def check_group_conflicts_def
      get_subjects_in_slot_def count_conflicts_def conflicts_get_def Let_def)

lemma validate_config_fits:
  "fst (validate_config c) \<Longrightarrow> \<not> int (length (subjects c)) > total_slots c"
  by (auto simp: validate_config_def Let_def split: if_splits)

lemma generate_timetable_exhausted:
  assumes "fst (validate_config c)"
    and "backtrack sh (groups c) (build_conflict_graph (groups c))
           (variable_order c (build_conflict_graph (groups c))) 0
           ((init_scheduler sd g c)\<lparr>domains := init_domains c\<rparr>) = Inr (False, st)"
  shows "generate_timetable sh sd g c =
     raise NoSolutionError No_valid_timetable_found_after_exhaustive_search
       (Search_diag (backtrack_count st) (int (length (subjects c)))
          (map (\<lambda>s. (s, conflicts_get (build_conflict_graph (groups c)) s)) (subjects c)))"
proof -
  obtain errors where v: "validate_config c = (True, errors)"
    using assms(1) by (cases "validate_config c") simp
  from validate_config_fits [OF assms(1)] have "\<not> int (length (subjects c)) > total_slots c" .
  with v assms(2) show ?thesis
    by (simp add: generate_timetable_def Let_def del: backtrack.simps)
qed

lemma repeated_subject_config_exhausted:
  "fst (validate_config repeated_subject_config) \<and>
   (\<exists>st. backtrack keep_order (groups repeated_subject_config)
           (build_conflict_graph (groups repeated_subject_config))
           (variable_order repeated_subject_config
              (build_conflict_graph (groups repeated_subject_config))) 0
           ((init_scheduler seed_state 0 repeated_subject_config)
              \<lparr>domains := init_domains repeated_subject_config\<rparr>) = Inr (False, st))"
  by (simp add: validate_config_def repeated_subject_config_def
      total_slots_def all_group_subjects_def set_add_def init_scheduler_def init_domains_def
      variable_order_def sorted_reverse_def build_conflict_graph_def add_subject_conflicts_def
      all_slots_def py_range_def keep_order_def is_consistent_def check_group_conflicts_def
      get_subjects_in_slot_def count_conflicts_def conflicts_get_def Let_def)

text \<open>
  C8, amended. Let the configuration fit its slots (no more subjects than
  \<open>days * slots_per_day\<close>), and let a subject of the subject list be claimed by no group, or
  a group declare a subject absent from the subject list. Then \<open>validate_config\<close> returns a
  non-empty error list without an \<open>Insufficient slots\<close> entry, and \<open>generate_timetable\<close>
  raises \<open>NoSolutionError\<close> with the message \<open>Invalid configuration\<close> and that list as
  \<open>validation_errors\<close>. The class is the one of the exhausted search: whenever the search
  of a configuration that passes validation returns \<open>False\<close>, \<open>generate_timetable\<close> raises
  \<open>NoSolutionError\<close> too, with another message and other diagnostics.
\<close>

theorem invalid_config_raises_NoSolutionError:
  assumes "(\<exists>s\<in>set (subjects c). \<forall>g\<in>set (groups c). s \<notin> set (group_subjects g))
         \<or> (\<exists>g\<in>set (groups c). \<exists>s\<in>set (group_subjects g). s \<notin> set (subjects c))"
    and "int (length (subjects c)) \<le> total_slots c"
  shows "\<exists>errors. errors \<noteq> [] \<and> validate_config c = (False, errors) \<and>
     (\<forall>n t. Insufficient_slots n t \<notin> set errors) \<and>
     generate_timetable (sh :: 'g shuffle) sd g c =
       raise NoSolutionError Invalid_configuration (Validation_errors errors) \<and>
     (\<forall>(sh' :: 'g shuffle) sd' g' c' st.
        fst (validate_config c') \<and>
        backtrack sh' (groups c') (build_conflict_graph (groups c'))
          (variable_order c' (build_conflict_graph (groups c'))) 0
          ((init_scheduler sd' g' c')\<lparr>domains := init_domains c'\<rparr>) = Inr (False, st) \<longrightarrow>
        (\<exists>dg. generate_timetable sh' sd' g' c' =
                 raise NoSolutionError No_valid_timetable_found_after_exhaustive_search dg \<and>
               dg \<noteq> Validation_errors errors))"
proof -
  have "filter (\<lambda>s. s \<notin> set (all_group_subjects (groups c))) (subjects c) \<noteq> []
      \<or> filter (\<lambda>s. s \<notin> set (subjects c)) (all_group_subjects (groups c)) \<noteq> []"
    using assms(1) unfolding filter_empty_conv set_all_group_subjects by blast
  then have ne: "snd (validate_config c) \<noteq> []"
    unfolding validate_config_errors by auto
  then have "\<not> fst (validate_config c)"
    by (simp only: validate_config_fst not_False_eq_True)
  then have eq: "validate_config c = (False, snd (validate_config c))"
    by (cases "validate_config c") simp
  have no_slots: "\<forall>n t. Insufficient_slots n t \<notin> set (snd (validate_config c))"
    using assms(2) unfolding validate_config_errors by auto
  have search: "\<exists>dg. generate_timetable sh' sd' g' c' =
                 raise NoSolutionError No_valid_timetable_found_after_exhaustive_search dg \<and>
               dg \<noteq> Validation_errors (snd (validate_config c))"
    if "fst (validate_config c')"
      and "backtrack sh' (groups c') (build_conflict_graph (groups c'))
          (variable_order c' (build_conflict_graph (groups c'))) 0
          ((init_scheduler sd' g' c')\<lparr>domains := init_domains c'\<rparr>) = Inr (False, st)"
    for sh' :: "'g shuffle" and sd' g' c' st
    using generate_timetable_exhausted [OF that] by fastforce
  from ne eq no_slots generate_timetable_invalid [OF ne, of sh sd g] search show ?thesis
    by (intro exI [of _ "snd (validate_config c)"]) blast
qed

theorem invalid_config_raises_NoSolutionError_witness:
  "(\<exists>errors. errors \<noteq> [] \<and> validate_config unclaimed_subject_config = (False, errors) \<and>
     (\<forall>n t. Insufficient_slots n t \<notin> set errors) \<and>
     generate_timetable keep_order seed_state 0 unclaimed_subject_config =
       raise NoSolutionError Invalid_configuration (Validation_errors errors)) \<and>
   (\<exists>dg. generate_timetable keep_order seed_state 0 repeated_subject_config =
            raise NoSolutionError No_valid_timetable_found_after_exhaustive_search dg)"
proof -
  have structural: "\<exists>s\<in>set (subjects unclaimed_subject_config).
          \<forall>g\<in>set (groups unclaimed_subject_config). s \<notin> set (group_subjects g)"
    by (simp add: unclaimed_subject_config_def)
  have fits: "int (length (subjects unclaimed_subject_config)) \<le> total_slots unclaimed_subject_config"
    by (simp add: unclaimed_subject_config_def total_slots_def)
  from repeated_subject_config_exhausted obtain st where
    valid: "fst (validate_config repeated_subject_config)"
    and st: "backtrack keep_order (groups repeated_subject_config)
           (build_conflict_graph (groups repeated_subject_config))
           (variable_order repeated_subject_config
              (build_conflict_graph (groups repeated_subject_config))) 0
           ((init_scheduler seed_state 0 repeated_subject_config)
              \<lparr>domains := init_domains repeated_subject_config\<rparr>) = Inr (False, st)"
    by (elim conjE exE)
  from invalid_config_raises_NoSolutionError
         [of unclaimed_subject_config keep_order seed_state 0, OF disjI1 [OF structural] fits]
  obtain errors where e: "errors \<noteq> []" "validate_config unclaimed_subject_config = (False, errors)"
      "\<forall>n t. Insufficient_slots n t \<notin> set errors"
      "generate_timetable keep_order seed_state 0 unclaimed_subject_config =
         raise NoSolutionError Invalid_configuration (Validation_errors errors)"
    and search: "\<forall>(sh' :: int shuffle) sd' g' c' st.
        fst (validate_config c') \<and>
        backtrack sh' (groups c') (build_conflict_graph (groups c'))
          (variable_order c' (build_conflict_graph (groups c'))) 0
          ((init_scheduler sd' g' c')\<lparr>domains := init_domains c'\<rparr>) = Inr (False, st) \<longrightarrow>
        (\<exists>dg. generate_timetable sh' sd' g' c' =
                 raise NoSolutionError No_valid_timetable_found_after_exhaustive_search dg \<and>
               dg \<noteq> Validation_errors errors)"
    by (elim exE conjE)
  from search valid st have "\<exists>dg. generate_timetable keep_order seed_state 0 repeated_subject_config =
            raise NoSolutionError No_valid_timetable_found_after_exhaustive_search dg"
    by blast
  with e show ?thesis by blast
qed

subsection \<open>Variable order\<close>

lemma sorted_reverse_descending: "sorted (rev (map k (sorted_reverse k xs)))"
  by (simp add: sorted_reverse_def rev_map)

lemma sorted_reverse_stable:
  "filter (\<lambda>x. k x = v) (sorted_reverse k xs) = filter (\<lambda>x. k x = v) xs"
proof -
  have "filter (\<lambda>x. k x = v) (sorted_reverse k xs) = rev (filter (\<lambda>x. k x = v) (sort_key k (rev xs)))"
    by (simp add: sorted_reverse_def rev_filter)
  also have "\<dots> = rev (filter (\<lambda>x. k x = v) (rev xs))"
    by (simp only: sort_key_stable)
  also have "\<dots> = filter (\<lambda>x. k x = v) xs"
    by (simp add: rev_filter)
  finally show ?thesis .
qed

lemma mset_sorted_reverse [simp]: "mset (sorted_reverse k xs) = mset xs"
  by (simp add: sorted_reverse_def)

lemma set_sorted_reverse [simp]: "set (sorted_reverse k xs) = set xs"
  by (simp add: sorted_reverse_def)

lemma distinct_sorted_reverse [simp]: "distinct (sorted_reverse k xs) = distinct xs"
  by (simp add: sorted_reverse_def)

lemma length_sorted_reverse [simp]: "length (sorted_reverse k xs) = length xs"
  by (simp add: sorted_reverse_def)

subsection \<open>Hall allocation: what one hall receives\<close>

lemma fill_hall_positive:
  "\<forall>(s, n)\<in>set acc. n > 0 \<Longrightarrow>
   \<forall>(s, n)\<in>set (fst (fill_hall cap limit snapshot remaining used acc)). n > 0"
proof (induction cap limit snapshot remaining used acc rule: fill_hall.induct)
  case (1 cap limit remaining used hall_allocation)
  then show ?case by simp
next
  case (2 cap limit subj cnt rest remaining used hall_allocation)
  then show ?case by (simp add: Let_def)
qed

lemma allocate_amount_le_available:
  "allocate_amount cap limit remaining used cnt \<le> cap - used"
  by (auto simp: allocate_amount_def Let_def min_def)

lemma allocate_amount_le_count:
  "allocate_amount cap limit remaining used cnt \<le> cnt"
  by (auto simp: allocate_amount_def Let_def min_def)

lemma raise_not_Inr [simp]: "raise c m d \<noteq> Inr x" "Inr x \<noteq> raise c m d"
  by (simp_all add: raise_def)

lemma greedy_loop_structure:
  "greedy_loop hc d s hs remaining allocs = Inr res \<Longrightarrow>
   \<exists>new used. res = allocs @ new \<and> subseq used hs \<and>
     list_all2 (\<lambda>a h. hall_name a = name h \<and> ha_day a = d \<and> ha_slot a = s \<and>
                  allocations a \<noteq> [] \<and>
                  (\<exists>rem. allocations a = fst (fill_hall (capacity h) (per_subject_limit hc)
                             (subjects_with_students rem) rem 0 []))) new used"
proof (induction hs arbitrary: remaining allocs)
  case Nil
  then show ?case by (auto split: if_splits)
next
  case (Cons hall hs)
  show ?case
  proof (cases "list_ex (\<lambda>(subj, c). c > 0) remaining")
    case False
    with Cons.prems have "res = allocs" by simp
    then show ?thesis by auto
  next
    case True
    obtain ha rem' where fh: "fill_hall (capacity hall) (per_subject_limit hc)
        (subjects_with_students remaining) remaining 0 [] = (ha, rem')"
      by (cases "fill_hall (capacity hall) (per_subject_limit hc)
        (subjects_with_students remaining) remaining 0 []") auto
    let ?a = "\<lparr>hall_name = name hall, ha_day = d, ha_slot = s, allocations = ha\<rparr>"
    let ?allocs' = "if ha \<noteq> [] then allocs @ [?a] else allocs"
    from Cons.prems True fh have run: "greedy_loop hc d s hs rem' ?allocs' = Inr res"
      by simp
    from Cons.IH [OF run] obtain new used where
      nu: "res = ?allocs' @ new" "subseq used hs"
        "list_all2 (\<lambda>a h. hall_name a = name h \<and> ha_day a = d \<and> ha_slot a = s \<and>
                  allocations a \<noteq> [] \<and>
                  (\<exists>rem. allocations a = fst (fill_hall (capacity h) (per_subject_limit hc)
                             (subjects_with_students rem) rem 0 []))) new used"
      by blast
    show ?thesis
    proof (cases "ha \<noteq> []")
      case False
      with nu show ?thesis
        by (intro exI [of _ new] exI [of _ used]) (auto intro: subseq_Cons')
    next
      case ne: True
      have "\<exists>rem. ha = fst (fill_hall (capacity hall) (per_subject_limit hc)
                             (subjects_with_students rem) rem 0 [])"
        using fh by (intro exI [of _ remaining]) simp
      with nu ne show ?thesis
        by (intro exI [of _ "?a # new"] exI [of _ "hall # used"]) auto
    qed
  qed
qed

lemma fill_hall_capacity:
  "sum_list (map snd acc) = used \<Longrightarrow> (acc \<noteq> [] \<longrightarrow> used \<le> cap) \<Longrightarrow>
   fst (fill_hall cap limit snapshot remaining used acc) \<noteq> [] \<longrightarrow>
     sum_list (map snd (fst (fill_hall cap limit snapshot remaining used acc))) \<le> cap"
proof (induction cap limit snapshot remaining used acc rule: fill_hall.induct)
  case (1 cap limit remaining used hall_allocation)
  then show ?case by simp
next
  case (2 cap limit subj cnt rest remaining used hall_allocation)
  show ?case
  proof (cases "used \<ge> cap")
    case True
    with 2 show ?thesis by simp
  next
    case False
    let ?amount = "allocate_amount cap limit remaining used cnt"
    show ?thesis
    proof (cases "?amount > 0")
      case True
      have le: "used + ?amount \<le> cap"
        using allocate_amount_le_available [of cap limit remaining used cnt] by simp
      have "fst (fill_hall cap limit rest (AList.map_entry subj (\<lambda>v. v - ?amount) remaining)
                 (used + ?amount) (hall_allocation @ [(subj, ?amount)])) \<noteq> [] \<longrightarrow>
            sum_list (map snd (fst (fill_hall cap limit rest
                 (AList.map_entry subj (\<lambda>v. v - ?amount) remaining)
                 (used + ?amount) (hall_allocation @ [(subj, ?amount)])))) \<le> cap"
        using "2.IH"(1) [OF False refl True] "2.prems" le by simp
      with False True show ?thesis by (simp add: Let_def)
    next
      case F2: False
      have "fst (fill_hall cap limit rest remaining used hall_allocation) \<noteq> [] \<longrightarrow>
            sum_list (map snd (fst (fill_hall cap limit rest remaining used hall_allocation))) \<le> cap"
        using "2.IH"(2) [OF False refl F2] "2.prems" by simp
      with False F2 show ?thesis by (simp add: Let_def)
    qed
  qed
qed

lemma allocate_cells_structure:
  "allocate_cells tt hc cs acc = Inr res \<Longrightarrow>
   \<exists>rs. list_all2 (\<lambda>c r. allocate_slot tt hc (fst c) (snd c) = Inr r) cs rs \<and> res = acc @ concat rs"
proof (induction cs arbitrary: acc)
  case Nil
  then show ?case by simp
next
  case (Cons c cs)
  obtain d s where c: "c = (d, s)" by (cases c)
  from Cons.prems c obtain r where r: "allocate_slot tt hc d s = Inr r"
    and run: "allocate_cells tt hc cs (acc @ r) = Inr res"
    by (auto split: sum.splits)
  from Cons.IH [OF run] obtain rs where
    "list_all2 (\<lambda>c r. allocate_slot tt hc (fst c) (snd c) = Inr r) cs rs" "res = (acc @ r) @ concat rs"
    by blast
  with r c show ?case
    by (intro exI [of _ "r # rs"]) simp
qed

lemma allocate_slot_structure:
  "allocate_slot tt hc d s = Inr r \<Longrightarrow>
   \<exists>used. subseq used (sorted_halls hc) \<and>
     list_all2 (\<lambda>a h. hall_name a = name h \<and> ha_day a = d \<and> ha_slot a = s \<and>
                  allocations a \<noteq> [] \<and>
                  (\<exists>rem. allocations a = fst (fill_hall (capacity h) (per_subject_limit hc)
                             (subjects_with_students rem) rem 0 []))) r used"
proof (cases "subjects_in_slot tt d s = []")
  case True
  assume "allocate_slot tt hc d s = Inr r"
  with True have "r = []" by (simp add: allocate_slot_def)
  then show ?thesis by (intro exI [of _ "[]"]) simp
next
  case False
  assume "allocate_slot tt hc d s = Inr r"
  with False have "greedy_loop hc d s (sorted_halls hc)
      (subject_students (groups (config tt)) (subjects_in_slot tt d s)) [] = Inr r"
    by (simp add: allocate_slot_def greedy_allocate_def)
  from greedy_loop_structure [OF this] show ?thesis by auto
qed

lemma list_all2_right_member:
  "list_all2 P xs ys \<Longrightarrow> y \<in> set ys \<Longrightarrow> \<exists>x\<in>set xs. P x y"
  by (induction rule: list_all2_induct) auto

lemma list_all2_left_member:
  "list_all2 P xs ys \<Longrightarrow> x \<in> set xs \<Longrightarrow> \<exists>y\<in>set ys. P x y"
  by (induction rule: list_all2_induct) auto

lemma subseq_member: "subseq xs ys \<Longrightarrow> x \<in> set xs \<Longrightarrow> x \<in> set ys"
  by (induction rule: list_emb.induct) auto

lemma allocate_slot_member:
  assumes "allocate_slot tt hc d s = Inr r" and "a \<in> set r"
  shows "\<exists>h\<in>set (halls hc). hall_name a = name h \<and> ha_day a = d \<and> ha_slot a = s \<and>
           allocations a \<noteq> [] \<and>
           (\<exists>rem. allocations a = fst (fill_hall (capacity h) (per_subject_limit hc)
                                  (subjects_with_students rem) rem 0 []))"
proof -
  from allocate_slot_structure [OF assms(1)] obtain used where
    used: "subseq used (sorted_halls hc)"
    and all2: "list_all2 (\<lambda>a h. hall_name a = name h \<and> ha_day a = d \<and> ha_slot a = s \<and>
                  allocations a \<noteq> [] \<and>
                  (\<exists>rem. allocations a = fst (fill_hall (capacity h) (per_subject_limit hc)
                             (subjects_with_students rem) rem 0 []))) r used"
    by (elim exE conjE)
  from list_all2_left_member [OF all2 assms(2)] obtain h where h: "h \<in> set used"
    and p: "hall_name a = name h \<and> ha_day a = d \<and> ha_slot a = s \<and>
                  allocations a \<noteq> [] \<and>
                  (\<exists>rem. allocations a = fst (fill_hall (capacity h) (per_subject_limit hc)
                             (subjects_with_students rem) rem 0 []))"
    by (elim bexE)
  from subseq_member [OF used h] have "h \<in> set (halls hc)"
    by (simp add: sorted_halls_def)
  with p show ?thesis by (intro bexI [of _ h])
qed

subsection \<open>Hall allocation: capacity and positive counts\<close>

lemma allocate_halls_cells:
  assumes "allocate_halls tt hc = Inr res"
  shows "\<exists>rs. list_all2 (\<lambda>c r. allocate_slot tt hc (fst c) (snd c) = Inr r)
                 (all_slots (config tt)) rs \<and>
              hall_assignments res = concat rs"
proof -
  from assms obtain asgs where
    cells: "allocate_cells tt hc (all_slots (config tt)) [] = Inr asgs"
    and res: "hall_assignments res = asgs"
    by (cases "allocate_cells tt hc (all_slots (config tt)) []")
       (auto simp: allocate_halls_def)
  from allocate_cells_structure [OF cells] res show ?thesis by simp
qed

lemma allocate_halls_member:
  assumes "allocate_halls tt hc = Inr res" and "a \<in> set (hall_assignments res)"
  shows "\<exists>h\<in>set (halls hc). hall_name a = name h \<and>
           (ha_day a, ha_slot a) \<in> set (all_slots (config tt)) \<and>
           allocations a \<noteq> [] \<and>
           (\<exists>rem. allocations a = fst (fill_hall (capacity h) (per_subject_limit hc)
                                  (subjects_with_students rem) rem 0 []))"
proof -
  from allocate_halls_cells [OF assms(1)] obtain rs where
    rs: "list_all2 (\<lambda>c r. allocate_slot tt hc (fst c) (snd c) = Inr r) (all_slots (config tt)) rs"
    and asgs: "hall_assignments res = concat rs"
    by (elim exE conjE)
  from assms(2) asgs obtain r where r: "r \<in> set rs" and ar: "a \<in> set r"
    by auto
  from list_all2_right_member [OF rs r] obtain c where c: "c \<in> set (all_slots (config tt))"
    and slot: "allocate_slot tt hc (fst c) (snd c) = Inr r"
    by (elim bexE)
  from allocate_slot_member [OF slot ar] obtain h where h: "h \<in> set (halls hc)"
    and p: "hall_name a = name h \<and> ha_day a = fst c \<and> ha_slot a = snd c \<and>
           allocations a \<noteq> [] \<and>
           (\<exists>rem. allocations a = fst (fill_hall (capacity h) (per_subject_limit hc)
                                  (subjects_with_students rem) rem 0 []))"
    by (elim bexE)
  from p c have "(ha_day a, ha_slot a) \<in> set (all_slots (config tt))" by simp
  with p h show ?thesis by (intro bexI [of _ h]) simp_all
qed

text \<open>
  C5. In every hall assignment of a successful \<open>allocate_halls\<close> run, the counts sum to
  at most the capacity of a configured hall of that name (the hall the assignment was
  recorded for), and every count is strictly positive.
\<close>

theorem hall_capacity_and_positive_counts:
  assumes "allocate_halls tt hc = Inr res" and "a \<in> set (hall_assignments res)"
  shows "(\<exists>h\<in>set (halls hc). name h = hall_name a \<and>
            sum_list (map snd (allocations a)) \<le> capacity h)
       \<and> (\<forall>(subj, n)\<in>set (allocations a). n > 0)"
proof -
  from allocate_halls_member [OF assms] obtain h rem where
    h: "h \<in> set (halls hc)" "hall_name a = name h" "allocations a \<noteq> []"
    and eq: "allocations a = fst (fill_hall (capacity h) (per_subject_limit hc)
                                  (subjects_with_students rem) rem 0 [])"
    by (elim bexE exE conjE)
  have "sum_list (map snd (allocations a)) \<le> capacity h"
    using fill_hall_capacity [of "[]" 0 "capacity h" "per_subject_limit hc"
        "subjects_with_students rem" rem] h(3) eq
    by simp
  moreover have "\<forall>(subj, n)\<in>set (allocations a). n > 0"
    using fill_hall_positive [of "[]" "capacity h" "per_subject_limit hc"
        "subjects_with_students rem" rem 0] eq
    by simp
  ultimately show ?thesis using h(1,2) by (intro conjI bexI [of _ h]) simp_all
qed

lemma all_slots_mixing: "all_slots (config mixing_timetable) = [(0, 0)]"
  by (simp add: all_slots_def py_range_def mixing_timetable_def)

lemma subject_students_mixing:
  "subject_students (groups (config mixing_timetable)) (subjects_in_slot mixing_timetable 0 0)
     = [(''M'', 40), (''E'', 40)]"
  by (simp add: subject_students_def subjects_in_slot_def mixing_timetable_def)

lemma sorted_halls_two_halls:
  "sorted_halls two_halls = [\<lparr>name = ''H1'', capacity = 50\<rparr>, \<lparr>name = ''H2'', capacity = 50\<rparr>]"
  by (simp add: sorted_halls_def sorted_reverse_def two_halls_def)

lemma allocate_slot_mixing:
  "allocate_slot mixing_timetable two_halls 0 0 = Inr [mixing_first_hall, mixing_second_hall]"
proof -
  have "subjects_in_slot mixing_timetable 0 0 \<noteq> []"
    by (simp add: subjects_in_slot_def mixing_timetable_def)
  then show ?thesis
    by (simp add: allocate_slot_def greedy_allocate_def subject_students_mixing
        sorted_halls_def subjects_with_students_def sorted_reverse_def Let_def
        allocate_amount_def positive_count_def mixing_first_hall_def mixing_second_hall_def
        two_halls_def)
qed

lemma allocate_halls_mixing: "allocate_halls mixing_timetable two_halls = Inr mixing_allocation"
  by (simp add: allocate_halls_def all_slots_mixing allocate_slot_mixing mixing_allocation_def)

theorem hall_capacity_and_positive_counts_witness:
  "allocate_halls mixing_timetable two_halls = Inr mixing_allocation
   \<and> mixing_first_hall \<in> set (hall_assignments mixing_allocation)
   \<and> hall_name mixing_first_hall = ''H1''
   \<and> sum_list (map snd (allocations mixing_first_hall)) \<le> 50
   \<and> list_all (\<lambda>(subj, n). n > 0) (allocations mixing_first_hall)"
proof -
  have mem: "mixing_first_hall \<in> set (hall_assignments mixing_allocation)"
    by (simp add: mixing_allocation_def)
  from hall_capacity_and_positive_counts [OF allocate_halls_mixing mem]
  obtain h where h: "h \<in> set (halls two_halls)" "name h = hall_name mixing_first_hall"
      "sum_list (map snd (allocations mixing_first_hall)) \<le> capacity h"
    and pos: "\<forall>(subj, n)\<in>set (allocations mixing_first_hall). n > 0"
    by blast
  from h have "sum_list (map snd (allocations mixing_first_hall)) \<le> 50"
    by (auto simp: two_halls_def)
  moreover from pos have "list_all (\<lambda>(subj, n). n > 0) (allocations mixing_first_hall)"
    by (simp add: list_all_iff)
  moreover have "hall_name mixing_first_hall = ''H1''"
    by (simp add: mixing_first_hall_def)
  ultimately show ?thesis using allocate_halls_mixing mem by simp
qed

subsection \<open>The search keeps its invariant\<close>

lemma update_fresh: "k \<notin> fst ` set al \<Longrightarrow> AList.update k v al = al @ [(k, v)]"
  by (induction al) auto

lemma delete_fresh: "k \<notin> fst ` set al \<Longrightarrow> AList.delete k (al @ [(k, v)]) = al"
  by (induction al) (auto simp: AList.delete_eq)

lemma nth_not_in_take:
  assumes "distinct xs" "i < length xs"
  shows "xs ! i \<notin> set (take i xs)"
proof
  assume "xs ! i \<in> set (take i xs)"
  then obtain j where j: "j < length (take i xs)" "take i xs ! j = xs ! i"
    by (auto simp: in_set_conv_nth)
  then have "j < i" "xs ! j = xs ! i" by simp_all
  with assms show False by (simp add: nth_eq_iff_index_eq)
qed

lemma is_consistent_free:
  "is_consistent gs asg subj d s \<Longrightarrow> (d, s) \<notin> snd ` set asg"
  by (auto simp: is_consistent_def list_ex_iff split: if_splits)

lemma forward_check_domains:
  "forward_check ns asg c doms = Inr (ok, doms') \<Longrightarrow>
   (\<forall>s dm. doms s = Some dm \<longrightarrow> set dm \<subseteq> S) \<Longrightarrow>
   (\<forall>s dm. doms' s = Some dm \<longrightarrow> set dm \<subseteq> S)"
proof (induction ns asg c doms rule: forward_check.induct)
  case (1 asg c doms)
  then show ?case by simp
next
  case (2 conflicting_subject rest asg c doms)
  show ?case
  proof (cases "conflicting_subject \<notin> fst ` set asg")
    case False
    with 2 show ?thesis by simp
  next
    case True
    from True "2.prems"(1) obtain dm where dm: "doms conflicting_subject = Some dm"
      by (cases "doms conflicting_subject") simp_all
    let ?dm' = "if c \<in> set dm then removeAll c dm else dm"
    let ?doms' = "doms(conflicting_subject \<mapsto> ?dm')"
    from dm "2.prems"(2) have "set ?dm' \<subseteq> S" by auto
    with "2.prems"(2) have sub: "\<forall>s d. ?doms' s = Some d \<longrightarrow> set d \<subseteq> S"
      by (auto split: if_splits)
    show ?thesis
    proof (cases "?dm' = []")
      case e: True
      with True dm "2.prems"(1) have "doms' = ?doms'" by (simp add: Let_def)
      with sub show ?thesis by simp
    next
      case ne: False
      with True dm "2.prems"(1) have run: "forward_check rest asg c ?doms' = Inr (ok, doms')"
        by (simp add: Let_def)
      from "2.IH"(1) [OF True dm refl refl ne run sub] show ?thesis .
    qed
  qed
qed

lemma search_inv_cong:
  "assignment a = assignment b \<Longrightarrow> domains a = domains b \<Longrightarrow>
   search_inv S subjs i a = search_inv S subjs i b"
  by (simp add: search_inv_def)

lemma search_post_cong:
  "assignment a = assignment b \<Longrightarrow> domains a = domains b \<Longrightarrow>
   search_post S subjs a found st' = search_post S subjs b found st'"
  by (simp add: search_post_def)

lemma search_inv_key_fresh:
  assumes "search_inv S subjs index st" "distinct subjs" "index < length subjs"
  shows "subjs ! index \<notin> fst ` set (assignment st)"
proof -
  from assms(1) have "fst ` set (assignment st) = set (take index subjs)"
    by (metis search_inv_def set_map)
  with nth_not_in_take [OF assms(2,3)] show ?thesis by simp
qed

lemma search_inv_step:
  assumes inv: "search_inv S subjs index st" and d: "distinct subjs" and i: "index < length subjs"
    and ok: "is_consistent gs (assignment st) (subjs ! index) (fst c) (snd c)"
    and c: "c \<in> S" and doms: "\<forall>s dm. doms' s = Some dm \<longrightarrow> set dm \<subseteq> S"
  shows "search_inv S subjs (index + 1)
           (st\<lparr>assignment := AList.update (subjs ! index) c (assignment st), domains := doms'\<rparr>)"
proof -
  from search_inv_key_fresh [OF inv d i]
  have upd: "AList.update (subjs ! index) c (assignment st) = assignment st @ [(subjs ! index, c)]"
    by (rule update_fresh)
  from is_consistent_free [OF ok] have free: "c \<notin> snd ` set (assignment st)" by simp
  from inv have a: "map fst (assignment st) = take index subjs"
    and b: "distinct (map snd (assignment st))" and e: "snd ` set (assignment st) \<subseteq> S"
    by (simp_all add: search_inv_def)
  have "map fst (assignment st @ [(subjs ! index, c)]) = take (index + 1) subjs"
    using a i by (simp add: take_Suc_conv_app_nth)
  moreover have "distinct (map snd (assignment st @ [(subjs ! index, c)]))"
    using b free by simp
  moreover have "snd ` set (assignment st @ [(subjs ! index, c)]) \<subseteq> S"
    using e c by simp
  ultimately show ?thesis
    using doms unfolding search_inv_def upd by simp
qed

lemma search_undo:
  assumes "search_inv S subjs index st" "distinct subjs" "index < length subjs"
  shows "AList.delete (subjs ! index) (AList.update (subjs ! index) c (assignment st)) = assignment st"
  using search_inv_key_fresh [OF assms] by (simp add: update_fresh delete_fresh)

lemma search_sound:
  fixes S :: "cell set"
  shows "(\<forall>g xs. set xs \<subseteq> S \<longrightarrow> set (fst (sh g xs)) \<subseteq> S) \<Longrightarrow> distinct subjs \<Longrightarrow>
         search_inv S subjs index st \<Longrightarrow>
         backtrack sh gs cf subjs index st = Inr (found, st') \<Longrightarrow>
         search_post S subjs st found st'"
    and "(\<forall>g xs. set xs \<subseteq> S \<longrightarrow> set (fst (sh g xs)) \<subseteq> S) \<Longrightarrow> distinct subjs \<Longrightarrow>
         search_inv S subjs index st \<Longrightarrow> set cs \<subseteq> S \<Longrightarrow>
         try_slots sh gs cf subjs index cs st = Inr (found, st') \<Longrightarrow>
         search_post S subjs st found st'"
proof (induction sh gs cf subjs index st and sh gs cf subjs index cs st
       arbitrary: found st' and found st' rule: backtrack_try_slots.induct)
  case (1 sh gs cf subjs index st)
  let ?st1 = "st\<lparr>backtrack_count := backtrack_count st + 1\<rparr>"
  show ?case
  proof (cases "length subjs \<le> index")
    case True
    with "1.prems"(4) have "found" "st' = ?st1" by simp_all
    moreover from "1.prems"(3) True have "search_inv S subjs (length subjs) ?st1"
      by (simp add: search_inv_def)
    ultimately show ?thesis by (simp add: search_post_def)
  next
    case False
    from False "1.prems"(4) obtain dm where dm: "domains ?st1 (subjs ! index) = Some dm"
      by (cases "domains ?st1 (subjs ! index)") (simp_all add: Let_def)
    let ?st2 = "?st1\<lparr>rng := snd (sh (rng ?st1) dm)\<rparr>"
    from False dm "1.prems"(4)
    have run: "try_slots sh gs cf subjs index (fst (sh (rng ?st1) dm)) ?st2 = Inr (found, st')"
      by (simp add: Let_def)
    from dm "1.prems"(3) have "set dm \<subseteq> S" by (simp add: search_inv_def)
    with "1.prems"(1) have cs: "set (fst (sh (rng ?st1) dm)) \<subseteq> S" by blast
    have inv: "search_inv S subjs index ?st2"
      using "1.prems"(3) by (simp add: search_inv_def)
    from "1.IH" [OF refl False dm "1.prems"(1,2) inv cs run]
    have "search_post S subjs ?st2 found st'" .
    then show ?thesis by (simp add: search_post_def)
  qed
next
  case (2 sh gs cf subjs index st)
  then show ?case by (simp add: search_post_def)
next
  case (3 sh gs cf subjs index c rest st)
  let ?k = "subjs ! index"
  let ?st1 = "st\<lparr>assignment := AList.update ?k c (assignment st)\<rparr>"
  from "3.prems"(4) have c: "c \<in> S" and rest: "set rest \<subseteq> S" by simp_all
  show ?case
  proof (cases "index < length subjs \<and> is_consistent gs (assignment st) ?k (fst c) (snd c)")
    case False
    with "3.prems"(5) have run: "try_slots sh gs cf subjs index rest st = Inr (found, st')"
      by simp
    from "3.IH"(4) [OF False "3.prems"(1,2,3) rest run] show ?thesis .
  next
    case True
    then have i: "index < length subjs"
      and cons: "is_consistent gs (assignment st) ?k (fst c) (snd c)" by simp_all
    from True "3.prems"(5) obtain ok doms' where
      fc: "forward_check (conflicts_get cf ?k) (assignment ?st1) c (domains ?st1) = Inr (ok, doms')"
      by (cases "forward_check (conflicts_get cf ?k) (assignment ?st1) c (domains ?st1)")
         (auto simp: Let_def)
    from "3.prems"(3) have "\<forall>s dm. domains ?st1 s = Some dm \<longrightarrow> set dm \<subseteq> S"
      by (simp add: search_inv_def)
    from forward_check_domains [OF fc this]
    have doms': "\<forall>s dm. doms' s = Some dm \<longrightarrow> set dm \<subseteq> S" .
    have undo: "AList.delete ?k (assignment ?st1) = assignment st"
      using search_undo [OF "3.prems"(3,2) i] by simp
    show ?thesis
    proof (cases ok)
      case nok: False
      let ?st3 = "?st1\<lparr>assignment := AList.delete ?k (assignment ?st1), domains := domains ?st1\<rparr>"
      from True fc nok "3.prems"(5)
      have run: "try_slots sh gs cf subjs index rest ?st3 = Inr (found, st')"
        by (simp add: Let_def)
      have same: "assignment ?st3 = assignment st" "domains ?st3 = domains st"
        using undo by simp_all
      from search_inv_cong [OF same] "3.prems"(3) have inv3: "search_inv S subjs index ?st3"
        by simp
      from "3.IH"(3) [OF True refl refl fc refl nok "3.prems"(1,2) inv3 rest run]
      have "search_post S subjs ?st3 found st'" .
      with search_post_cong [OF same] show ?thesis by simp
    next
      case ok: True
      let ?st1' = "?st1\<lparr>domains := doms'\<rparr>"
      from True fc ok "3.prems"(5) obtain f2 st2 where
        bt: "backtrack sh gs cf subjs (index + 1) ?st1' = Inr (f2, st2)"
        by (cases "backtrack sh gs cf subjs (index + 1) ?st1'")
           (auto simp: Let_def simp del: backtrack.simps)
      have inv1: "search_inv S subjs (index + 1) ?st1'"
        using search_inv_step [OF "3.prems"(3,2) i cons c doms'] by simp
      from "3.IH"(1) [OF True refl refl fc refl ok "3.prems"(1,2) inv1 bt]
      have post2: "search_post S subjs ?st1' f2 st2" .
      show ?thesis
      proof (cases f2)
        case found2: True
        with True fc ok bt "3.prems"(5) have "found" "st' = st2"
          by (simp_all add: Let_def del: backtrack.simps)
        with post2 found2 show ?thesis by (simp add: search_post_def)
      next
        case nf: False
        with post2 have asg2: "assignment st2 = assignment ?st1'" by (simp add: search_post_def)
        have upd: "AList.update ?k c (assignment st) = assignment st @ [(?k, c)]"
          using search_inv_key_fresh [OF "3.prems"(3,2) i] by (rule update_fresh)
        have key: "?k \<in> fst ` set (assignment st2)"
          unfolding asg2 using upd by simp
        let ?st3 = "st2\<lparr>assignment := AList.delete ?k (assignment st2), domains := domains ?st1\<rparr>"
        from True fc ok bt nf key "3.prems"(5)
        have run: "try_slots sh gs cf subjs index rest ?st3 = Inr (found, st')"
          by (simp add: Let_def del: backtrack.simps)
        have same: "assignment ?st3 = assignment st" "domains ?st3 = domains st"
          using undo asg2 by simp_all
        from search_inv_cong [OF same] "3.prems"(3) have inv3: "search_inv S subjs index ?st3"
          by simp
        from "3.IH"(2) [OF True refl refl fc refl ok bt refl nf key "3.prems"(1,2) inv3 rest run]
        have "search_post S subjs ?st3 found st'" .
        with search_post_cong [OF same] show ?thesis by simp
      qed
    qed
  qed
qed

subsection \<open>The conflict graph and its degrees\<close>

lemma foldl_set_add_others:
  "distinct acc \<Longrightarrow>
   distinct (foldl (\<lambda>acc other. if other \<noteq> subj then set_add other acc else acc) acc xs) \<and>
   set (foldl (\<lambda>acc other. if other \<noteq> subj then set_add other acc else acc) acc xs)
     = set acc \<union> (set xs - {subj})"
  by (induction xs arbitrary: acc) (auto simp: set_add_def)

lemma conflicts_get_add_subject_conflicts:
  "conflicts_get (add_subject_conflicts gsub cf subj) s =
     (if s = subj
      then foldl (\<lambda>acc other. if other \<noteq> subj then set_add other acc else acc)
             (conflicts_get cf subj) gsub
      else conflicts_get cf s)"
  by (simp add: conflicts_get_def add_subject_conflicts_def Let_def)

lemma add_subject_conflicts_neighbours:
  assumes "distinct (conflicts_get cf s)"
  shows "distinct (conflicts_get (add_subject_conflicts gsub cf subj) s) \<and>
         set (conflicts_get (add_subject_conflicts gsub cf subj) s) =
           set (conflicts_get cf s) \<union> (if s = subj then set gsub - {s} else {})"
proof (cases "s = subj")
  case True
  with foldl_set_add_others [OF assms, of s gsub] show ?thesis
    by (simp add: conflicts_get_add_subject_conflicts)
next
  case False
  with assms show ?thesis by (simp add: conflicts_get_add_subject_conflicts)
qed

lemma group_conflicts_neighbours:
  "distinct (conflicts_get cf s) \<Longrightarrow>
   distinct (conflicts_get (foldl (add_subject_conflicts gsub) cf ys) s) \<and>
   set (conflicts_get (foldl (add_subject_conflicts gsub) cf ys) s) =
     set (conflicts_get cf s) \<union> (if s \<in> set ys then set gsub - {s} else {})"
proof (induction ys arbitrary: cf)
  case Nil
  then show ?case by simp
next
  case (Cons y ys)
  from add_subject_conflicts_neighbours [OF Cons.prems, of gsub y]
  have d: "distinct (conflicts_get (add_subject_conflicts gsub cf y) s)"
    and s: "set (conflicts_get (add_subject_conflicts gsub cf y) s) =
           set (conflicts_get cf s) \<union> (if s = y then set gsub - {s} else {})"
    by simp_all
  from Cons.IH [OF d] s show ?case by auto
qed

lemma spec_neighbours_Cons:
  "spec_neighbours (g # gs) s =
     (if s \<in> set (group_subjects g) then set (group_subjects g) - {s} else {}) \<union> spec_neighbours gs s"
  by (auto simp: spec_neighbours_def split: if_splits)

lemma groups_conflicts_neighbours:
  "distinct (conflicts_get cf s) \<Longrightarrow>
   distinct (conflicts_get
      (foldl (\<lambda>conflicts g. foldl (add_subject_conflicts (group_subjects g)) conflicts (group_subjects g))
         cf gs) s) \<and>
   set (conflicts_get
      (foldl (\<lambda>conflicts g. foldl (add_subject_conflicts (group_subjects g)) conflicts (group_subjects g))
         cf gs) s) =
     set (conflicts_get cf s) \<union> spec_neighbours gs s"
proof (induction gs arbitrary: cf)
  case Nil
  then show ?case by (simp add: spec_neighbours_def)
next
  case (Cons g gs)
  from group_conflicts_neighbours [OF Cons.prems, of "group_subjects g" "group_subjects g"]
  have d: "distinct (conflicts_get (foldl (add_subject_conflicts (group_subjects g)) cf (group_subjects g)) s)"
    and s: "set (conflicts_get (foldl (add_subject_conflicts (group_subjects g)) cf (group_subjects g)) s) =
     set (conflicts_get cf s) \<union> (if s \<in> set (group_subjects g) then set (group_subjects g) - {s} else {})"
    by simp_all
  from Cons.IH [OF d] s show ?case
    by (simp add: spec_neighbours_Cons Un_assoc)
qed

lemma build_conflict_graph_neighbours:
  "distinct (conflicts_get (build_conflict_graph gs) s) \<and>
   set (conflicts_get (build_conflict_graph gs) s) = spec_neighbours gs s"
  using groups_conflicts_neighbours [of Map.empty s gs]
  by (simp add: build_conflict_graph_def conflicts_get_def)

lemma count_conflicts_degree:
  "count_conflicts s (build_conflict_graph gs) = spec_conflict_degree gs s"
  using build_conflict_graph_neighbours [of gs s] distinct_card [of "conflicts_get (build_conflict_graph gs) s"]
  by (simp add: count_conflicts_def spec_conflict_degree_def)

subsection \<open>A successful run of the scheduler\<close>

lemma init_domains_from:
  "foldl (\<lambda>doms subj. doms(subj \<mapsto> A)) m xs s = (if s \<in> set xs then Some A else m s)"
  by (induction xs arbitrary: m) auto

lemma init_domains_Some: "init_domains c s = Some dm \<Longrightarrow> dm = all_slots c"
  by (simp add: init_domains_def init_domains_from split: if_splits)

lemma generate_timetable_success:
  fixes S :: "cell set" and sh :: "'g shuffle"
  assumes perm: "\<forall>g xs. set xs \<subseteq> S \<longrightarrow> set (fst (sh g xs)) \<subseteq> S"
    and slots: "set (all_slots c) \<subseteq> S"
    and d: "distinct (subjects c)"
    and run: "generate_timetable sh sd g c = Inr tt"
  shows "\<exists>st :: 'g TimetableScheduler.
            search_inv S (variable_order c (build_conflict_graph (groups c)))
                (length (subjects c)) st \<and>
              assignments tt =
                map (\<lambda>(subj, (d, s)). \<lparr>day = d, slot = s, subject = subj\<rparr>) (assignment st) \<and>
              config tt = c"
proof -
  let ?cf = "build_conflict_graph (groups c)"
  let ?subjs = "variable_order c ?cf"
  let ?st0 = "(init_scheduler sd g c)\<lparr>domains := init_domains c\<rparr>"
  obtain v errors where v: "validate_config c = (v, errors)" by (cases "validate_config c")
  from run v have valid: v
    by (auto simp: generate_timetable_def Let_def simp del: backtrack.simps split: if_splits)
  from run v valid have fits: "\<not> int (length (subjects c)) > total_slots c"
    by (auto simp: generate_timetable_def Let_def simp del: backtrack.simps split: if_splits)
  from run v valid fits obtain st where
    bt: "backtrack sh (groups c) ?cf ?subjs 0 ?st0 = Inr (True, st)"
    and tt: "tt = \<lparr>assignments =
                    map (\<lambda>(subj, (d, s)). \<lparr>day = d, slot = s, subject = subj\<rparr>) (assignment st),
                  config = c\<rparr>"
    by (cases "backtrack sh (groups c) ?cf ?subjs 0 ?st0")
       (auto simp: generate_timetable_def Let_def simp del: backtrack.simps split: if_splits)
  have ds: "distinct ?subjs" using d by (simp add: variable_order_def)
  have inv0: "search_inv S ?subjs 0 ?st0"
    using slots by (auto simp: search_inv_def init_scheduler_def dest: init_domains_Some)
  from search_sound(1) [OF perm ds inv0 bt]
  have "search_inv S ?subjs (length ?subjs) st" by (simp add: search_post_def)
  then have "search_inv S ?subjs (length (subjects c)) st" by (simp add: variable_order_def)
  with tt show ?thesis by (intro exI [of _ st]) simp_all
qed

lemma generate_timetable_order:
  fixes sh :: "'g shuffle"
  assumes "distinct (subjects c)" and "generate_timetable sh sd g c = Inr tt"
  shows "map subject (assignments tt) = variable_order c (build_conflict_graph (groups c))"
proof -
  have "\<forall>g xs. set xs \<subseteq> (UNIV :: cell set) \<longrightarrow> set (fst (sh g xs)) \<subseteq> UNIV" by simp
  from generate_timetable_success [OF this _ assms] obtain st :: "'g TimetableScheduler" where
    inv: "search_inv UNIV (variable_order c (build_conflict_graph (groups c))) (length (subjects c)) st"
    and asg: "assignments tt =
                map (\<lambda>(subj, (d, s)). \<lparr>day = d, slot = s, subject = subj\<rparr>) (assignment st)"
    by auto
  from asg have "map subject (assignments tt) = map fst (assignment st)"
    by (simp add: case_prod_unfold comp_def)
  also from inv have "\<dots> = variable_order c (build_conflict_graph (groups c))"
    by (simp add: search_inv_def variable_order_def)
  finally show ?thesis .
qed

lemma generate_timetable_ordering_config:
  "generate_timetable keep_order seed_state 0 ordering_config = Inr ordering_timetable"
  by (simp add: generate_timetable_def validate_config_def ordering_config_def ordering_timetable_def
      total_slots_def all_group_subjects_def set_add_def raise_def init_scheduler_def init_domains_def
      variable_order_def sorted_reverse_def build_conflict_graph_def add_subject_conflicts_def
      all_slots_def py_range_def keep_order_def is_consistent_def check_group_conflicts_def
      get_subjects_in_slot_def count_conflicts_def conflicts_get_def seed_state_def Let_def upto.simps)

lemma generate_timetable_ordering_config_unseeded:
  "generate_timetable rotate_by_state seed_state 1 (ordering_config\<lparr>random_seed := None\<rparr>)
     = Inr ordering_timetable_unseeded"
  by (simp add: generate_timetable_def validate_config_def ordering_config_def
      ordering_timetable_unseeded_def
      total_slots_def all_group_subjects_def set_add_def raise_def init_scheduler_def init_domains_def
      variable_order_def sorted_reverse_def build_conflict_graph_def add_subject_conflicts_def
      all_slots_def py_range_def rotate_by_state_def is_consistent_def check_group_conflicts_def
      get_subjects_in_slot_def count_conflicts_def conflicts_get_def seed_state_def Let_def upto.simps
      rotate_def eval_nat_numeral)

text \<open>
  C9. The scheduler's variable order is fixed before the search and kept by it: when
  \<open>generate_timetable\<close> succeeds, the subjects of the returned assignments, in the order
  in which the search assigned them, are exactly \<open>variable_order\<close>, the list computed
  before \<open>backtrack\<close> is called. Along this list the conflict-graph degree (the number of
  other subjects sharing a group with the subject) is descending, the list is a
  rearrangement of the configured subjects, subjects of equal degree keep the order of the
  input list, and a run with any other seed, generator or generator state assigns the
  subjects in the same order. The subjects of the configuration are pairwise different, as the
  constructor of \<open>TimetableConfig\<close> checks.
\<close>

theorem variable_order_static:
  fixes sh :: "'g shuffle"
  assumes "distinct (subjects c)" and "generate_timetable sh sd g c = Inr tt"
  shows "map subject (assignments tt) = variable_order c (build_conflict_graph (groups c))
   \<and> sorted (rev (map (spec_conflict_degree (groups c)) (map subject (assignments tt))))
   \<and> mset (map subject (assignments tt)) = mset (subjects c)
   \<and> (\<forall>n. filter (\<lambda>s. spec_conflict_degree (groups c) s = n) (map subject (assignments tt))
          = filter (\<lambda>s. spec_conflict_degree (groups c) s = n) (subjects c))
   \<and> (\<forall>(sh' :: 'g shuffle) sd' g' seed tt'.
         generate_timetable sh' sd' g' (c\<lparr>random_seed := seed\<rparr>) = Inr tt' \<longrightarrow>
         map subject (assignments tt') = map subject (assignments tt))"
proof -
  let ?cf = "build_conflict_graph (groups c)"
  have key: "(\<lambda>s. count_conflicts s ?cf) = spec_conflict_degree (groups c)"
    by (rule ext) (rule count_conflicts_degree)
  have order: "map subject (assignments tt) = variable_order c ?cf"
    using assms by (rule generate_timetable_order)
  have vo: "variable_order c ?cf = sorted_reverse (spec_conflict_degree (groups c)) (subjects c)"
    by (simp add: variable_order_def key)
  have desc: "sorted (rev (map (spec_conflict_degree (groups c)) (map subject (assignments tt))))"
    unfolding order vo by (rule sorted_reverse_descending)
  have perm: "mset (map subject (assignments tt)) = mset (subjects c)"
    unfolding order vo by simp
  have stable: "filter (\<lambda>s. spec_conflict_degree (groups c) s = n) (map subject (assignments tt))
          = filter (\<lambda>s. spec_conflict_degree (groups c) s = n) (subjects c)" for n
    unfolding order vo by (rule sorted_reverse_stable)
  have other: "map subject (assignments tt') = map subject (assignments tt)"
    if "generate_timetable sh' sd' g' (c\<lparr>random_seed := seed\<rparr>) = Inr tt'"
    for sh' :: "'g shuffle" and sd' g' seed tt'
  proof -
    have "distinct (subjects (c\<lparr>random_seed := seed\<rparr>))" using assms(1) by simp
    from generate_timetable_order [OF this that]
    have "map subject (assignments tt') = variable_order c ?cf"
      by (simp add: variable_order_def)
    with order show ?thesis by simp
  qed
  from order desc perm stable other show ?thesis by blast
qed

theorem variable_order_static_witness:
  "distinct (subjects ordering_config)
   \<and> generate_timetable keep_order seed_state 0 ordering_config = Inr ordering_timetable
   \<and> map subject (assignments ordering_timetable) = [''B'', ''C'', ''A'']
   \<and> variable_order ordering_config (build_conflict_graph (groups ordering_config))
       = [''B'', ''C'', ''A'']
   \<and> map (spec_conflict_degree (groups ordering_config)) [''B'', ''C'', ''A''] = [1, 1, 0]
   \<and> generate_timetable rotate_by_state seed_state 1 (ordering_config\<lparr>random_seed := None\<rparr>)
       = Inr ordering_timetable_unseeded
   \<and> map subject (assignments ordering_timetable_unseeded) = [''B'', ''C'', ''A'']"
proof -
  have d: "distinct (subjects ordering_config)"
    by (simp add: ordering_config_def)
  have subjects: "map subject (assignments ordering_timetable) = [''B'', ''C'', ''A'']"
    by (simp add: ordering_timetable_def)
  have degrees: "map (spec_conflict_degree (groups ordering_config)) [''B'', ''C'', ''A''] = [1, 1, 0]"
    by (simp add: spec_conflict_degree_def spec_neighbours_def ordering_config_def)
  from variable_order_static [OF d generate_timetable_ordering_config]
  have order: "map subject (assignments ordering_timetable) =
      variable_order ordering_config (build_conflict_graph (groups ordering_config))"
    and other: "\<forall>(sh' :: int shuffle) sd' g' seed tt'.
         generate_timetable sh' sd' g' (ordering_config\<lparr>random_seed := seed\<rparr>) = Inr tt' \<longrightarrow>
         map subject (assignments tt') = map subject (assignments ordering_timetable)"
    by blast+
  from other generate_timetable_ordering_config_unseeded
  have "map subject (assignments ordering_timetable_unseeded) =
        map subject (assignments ordering_timetable)"
    by blast
  with d subjects degrees order generate_timetable_ordering_config
    generate_timetable_ordering_config_unseeded
  show ?thesis by simp
qed

subsection \<open>The timetable returned by the scheduler\<close>

lemma set_all_slots:
  "set (all_slots c) = {(d, s). 0 \<le> d \<and> d < days c \<and> 0 \<le> s \<and> s < slots_per_day c}"
  by (auto simp: all_slots_def py_range_def)

lemma shuffle_permutes_subset:
  "shuffle_permutes sh \<Longrightarrow> \<forall>g xs. set xs \<subseteq> S \<longrightarrow> set (fst (sh g xs)) \<subseteq> S"
  by (metis mset_eq_setD shuffle_permutes_def)

lemma shuffle_permutes_keep_order: "shuffle_permutes keep_order"
  by (simp add: shuffle_permutes_def keep_order_def)

lemma generate_timetable_cells:
  fixes sh :: "'g shuffle"
  assumes "shuffle_permutes sh" and "distinct (subjects c)"
    and "generate_timetable sh sd g c = Inr tt"
  shows "distinct (map (\<lambda>a. (day a, slot a)) (assignments tt))
       \<and> set (map (\<lambda>a. (day a, slot a)) (assignments tt)) \<subseteq> set (all_slots c)"
proof -
  from generate_timetable_success [OF shuffle_permutes_subset [OF assms(1)] subset_refl assms(2,3)]
  obtain st :: "'g TimetableScheduler" where
    inv: "search_inv (set (all_slots c)) (variable_order c (build_conflict_graph (groups c)))
            (length (subjects c)) st"
    and asg: "assignments tt =
                map (\<lambda>(subj, (d, s)). \<lparr>day = d, slot = s, subject = subj\<rparr>) (assignment st)"
    by blast
  from asg have cells: "map (\<lambda>a. (day a, slot a)) (assignments tt) = map snd (assignment st)"
    by (simp add: case_prod_unfold comp_def)
  from inv have "distinct (map snd (assignment st))" "snd ` set (assignment st) \<subseteq> set (all_slots c)"
    by (simp_all add: search_inv_def)
  then show ?thesis unfolding cells by simp
qed

text \<open>
  C1. When \<open>generate_timetable\<close> succeeds, the returned assignments name every configured
  subject exactly once, every day and slot is within the configured ranges, no two
  assignments share a \<open>(day, slot)\<close>, and two different subjects of one group never share
  a \<open>(day, slot)\<close>. The generator's shuffle rearranges its list, and the subjects of the
  configuration are pairwise different, as the constructor of \<open>TimetableConfig\<close> checks.
\<close>

theorem generated_timetable_valid:
  fixes sh :: "'g shuffle"
  assumes "shuffle_permutes sh" and "distinct (subjects c)"
    and "generate_timetable sh sd g c = Inr tt"
  shows "mset (map subject (assignments tt)) = mset (subjects c)
       \<and> (\<forall>a\<in>set (assignments tt).
            0 \<le> day a \<and> day a < days c \<and> 0 \<le> slot a \<and> slot a < slots_per_day c)
       \<and> distinct (map (\<lambda>a. (day a, slot a)) (assignments tt))
       \<and> (\<forall>g\<in>set (groups c). \<forall>a\<in>set (assignments tt). \<forall>b\<in>set (assignments tt).
            subject a \<in> set (group_subjects g) \<and> subject b \<in> set (group_subjects g) \<and>
            subject a \<noteq> subject b \<longrightarrow> (day a, slot a) \<noteq> (day b, slot b))"
proof -
  from generate_timetable_order [OF assms(2,3)]
  have subjects: "mset (map subject (assignments tt)) = mset (subjects c)"
    by (simp add: variable_order_def)
  from generate_timetable_cells [OF assms]
  have d: "distinct (map (\<lambda>a. (day a, slot a)) (assignments tt))"
    and r: "set (map (\<lambda>a. (day a, slot a)) (assignments tt)) \<subseteq> set (all_slots c)"
    by simp_all
  have range: "0 \<le> day a \<and> day a < days c \<and> 0 \<le> slot a \<and> slot a < slots_per_day c"
    if "a \<in> set (assignments tt)" for a
  proof -
    from that r have "(day a, slot a) \<in> set (all_slots c)" by auto
    then show ?thesis by (simp add: set_all_slots)
  qed
  from d have inj: "inj_on (\<lambda>a. (day a, slot a)) (set (assignments tt))"
    by (simp add: distinct_map)
  have apart: "(day a, slot a) \<noteq> (day b, slot b)"
    if "a \<in> set (assignments tt)" "b \<in> set (assignments tt)" "subject a \<noteq> subject b" for a b
  proof
    assume "(day a, slot a) = (day b, slot b)"
    with inj that(1,2) have "a = b" by (auto dest: inj_onD)
    with that(3) show False by simp
  qed
  from subjects range d apart show ?thesis by blast
qed

theorem generated_timetable_valid_witness:
  "shuffle_permutes keep_order \<and> distinct (subjects ordering_config)
   \<and> generate_timetable keep_order seed_state 0 ordering_config = Inr ordering_timetable
   \<and> mset (map subject (assignments ordering_timetable)) = mset (subjects ordering_config)
   \<and> list_all (\<lambda>a. 0 \<le> day a \<and> day a < 1 \<and> 0 \<le> slot a \<and> slot a < 3)
        (assignments ordering_timetable)
   \<and> distinct (map (\<lambda>a. (day a, slot a)) (assignments ordering_timetable))
   \<and> subject (assignments ordering_timetable ! 0) \<in> set (group_subjects (groups ordering_config ! 1))
   \<and> subject (assignments ordering_timetable ! 1) \<in> set (group_subjects (groups ordering_config ! 1))
   \<and> subject (assignments ordering_timetable ! 0) \<noteq> subject (assignments ordering_timetable ! 1)
   \<and> (day (assignments ordering_timetable ! 0), slot (assignments ordering_timetable ! 0))
       \<noteq> (day (assignments ordering_timetable ! 1), slot (assignments ordering_timetable ! 1))"
proof -
  have d: "distinct (subjects ordering_config)"
    by (simp add: ordering_config_def)
  let ?a = "assignments ordering_timetable ! 0" and ?b = "assignments ordering_timetable ! 1"
  let ?g = "groups ordering_config ! 1"
  have mem: "?g \<in> set (groups ordering_config)" "?a \<in> set (assignments ordering_timetable)"
      "?b \<in> set (assignments ordering_timetable)"
    by (simp_all add: ordering_config_def ordering_timetable_def)
  have grp: "subject ?a \<in> set (group_subjects ?g)" "subject ?b \<in> set (group_subjects ?g)"
      "subject ?a \<noteq> subject ?b"
    by (simp_all add: ordering_config_def ordering_timetable_def)
  from generated_timetable_valid [OF shuffle_permutes_keep_order d generate_timetable_ordering_config]
  have subjects: "mset (map subject (assignments ordering_timetable)) = mset (subjects ordering_config)"
    and range: "\<forall>a\<in>set (assignments ordering_timetable).
            0 \<le> day a \<and> day a < days ordering_config \<and> 0 \<le> slot a \<and> slot a < slots_per_day ordering_config"
    and cells: "distinct (map (\<lambda>a. (day a, slot a)) (assignments ordering_timetable))"
    and apart: "\<forall>g\<in>set (groups ordering_config). \<forall>a\<in>set (assignments ordering_timetable).
            \<forall>b\<in>set (assignments ordering_timetable).
            subject a \<in> set (group_subjects g) \<and> subject b \<in> set (group_subjects g) \<and>
            subject a \<noteq> subject b \<longrightarrow> (day a, slot a) \<noteq> (day b, slot b)"
    by blast+
  from range have "list_all (\<lambda>a. 0 \<le> day a \<and> day a < 1 \<and> 0 \<le> slot a \<and> slot a < 3)
        (assignments ordering_timetable)"
    by (simp add: list_all_iff ordering_config_def)
  moreover from apart mem grp have "(day ?a, slot ?a) \<noteq> (day ?b, slot ?b)"
    by blast
  ultimately show ?thesis
    using shuffle_permutes_keep_order d generate_timetable_ordering_config subjects cells grp
    by simp
qed

subsection \<open>Hall allocation: the order of the assignments\<close>

lemma allocate_halls_two_slot:
  "allocate_halls two_slot_timetable small_big_halls = Inr two_slot_allocation"
  by (simp add: allocate_halls_def all_slots_def py_range_def upto.simps two_slot_timetable_def
      small_big_halls_def two_slot_allocation_def allocate_slot_def subjects_in_slot_def
      subject_students_def greedy_allocate_def sorted_halls_def sorted_reverse_def
      subjects_with_students_def allocate_amount_def positive_count_def Let_def)

lemma sorted_wrt_cells:
  fixes xs ys :: "int list"
  assumes "sorted_wrt (<) ys"
  shows "sorted_wrt (<) xs \<Longrightarrow> sorted_wrt (<) (concat (map (\<lambda>d. map (\<lambda>s. (d, s)) ys) xs))"
proof (induction xs)
  case Nil
  then show ?case by simp
next
  case (Cons d xs)
  have "sorted_wrt (<) (map (\<lambda>s. (d, s)) ys)"
    using assms by (simp add: sorted_wrt_map)
  with Cons show ?case
    by (auto simp: sorted_wrt_append)
qed

lemma sorted_wrt_all_slots: "sorted_wrt (<) (all_slots c)"
  unfolding all_slots_def py_range_def
  by (rule sorted_wrt_cells) (simp_all add: strict_sorted_iff)

lemma sorted_all_slots: "sorted (all_slots c)"
  using sorted_wrt_all_slots [of c] by (simp add: strict_sorted_iff)

lemma distinct_all_slots: "distinct (all_slots c)"
  using sorted_wrt_all_slots [of c] by (simp add: strict_sorted_iff)

lemma sorted_constant: "\<forall>a\<in>set r. f a = c \<Longrightarrow> sorted (map f r)"
  by (induction r) auto

lemma sorted_cells_concat:
  fixes f :: "'a \<Rightarrow> 'c::linorder"
  shows "list_all2 (\<lambda>c r. \<forall>a\<in>set r. f a = c) cs rs \<Longrightarrow> sorted cs \<Longrightarrow> sorted (map f (concat rs))"
proof (induction rule: list_all2_induct)
  case Nil
  then show ?case by simp
next
  case (Cons c cs r rs)
  have later: "c \<le> f b" if "b \<in> set (concat rs)" for b
  proof -
    from that obtain r' where r': "r' \<in> set rs" "b \<in> set r'" by auto
    from list_all2_right_member [OF Cons.hyps(2) r'(1)] obtain c' where
      "c' \<in> set cs" "\<forall>a\<in>set r'. f a = c'" by blast
    with r'(2) Cons.prems show ?thesis by auto
  qed
  from Cons have "sorted (map f (concat rs))" by simp
  moreover from Cons.hyps(1) have "sorted (map f r)" by (rule sorted_constant)
  moreover from Cons.hyps(1) later have "\<forall>a\<in>set r. \<forall>b\<in>set (concat rs). f a \<le> f b" by simp
  ultimately show ?case by (simp add: sorted_append)
qed

lemma filter_cells_other:
  "list_all2 (\<lambda>c r. \<forall>a\<in>set r. f a = c) cs rs \<Longrightarrow> c0 \<notin> set cs \<Longrightarrow>
   filter (\<lambda>a. f a = c0) (concat rs) = []"
  by (induction rule: list_all2_induct) (auto simp: filter_empty_conv)

lemma filter_cells_concat:
  "list_all2 (\<lambda>c r. \<forall>a\<in>set r. f a = c) cs rs \<Longrightarrow> distinct cs \<Longrightarrow>
   filter (\<lambda>a. f a = c0) (concat rs) = [] \<or> filter (\<lambda>a. f a = c0) (concat rs) \<in> set rs"
proof (induction rule: list_all2_induct)
  case Nil
  then show ?case by simp
next
  case (Cons c cs r rs)
  show ?case
  proof (cases "c = c0")
    case True
    with Cons.prems have "c0 \<notin> set cs" by simp
    from filter_cells_other [OF Cons.hyps(2) this]
    have "filter (\<lambda>a. f a = c0) (concat rs) = []" .
    moreover from True Cons.hyps(1) have "filter (\<lambda>a. f a = c0) r = r"
      by (simp add: filter_id_conv)
    ultimately show ?thesis by simp
  next
    case False
    with Cons.hyps(1) have "filter (\<lambda>a. f a = c0) r = []"
      by (auto simp: filter_empty_conv)
    with Cons show ?thesis by auto
  qed
qed

lemma allocate_slot_cell:
  assumes "allocate_slot tt hc d s = Inr r"
  shows "\<forall>a\<in>set r. (ha_day a, ha_slot a) = (d, s)"
proof
  fix a assume "a \<in> set r"
  from allocate_slot_member [OF assms this] show "(ha_day a, ha_slot a) = (d, s)" by blast
qed

lemma allocate_slot_halls:
  assumes "allocate_slot tt hc d s = Inr r"
  shows "\<exists>used. subseq used (sorted_halls hc) \<and> map hall_name r = map name used"
proof -
  from allocate_slot_structure [OF assms] obtain used where
    used: "subseq used (sorted_halls hc)"
    and all2: "list_all2 (\<lambda>a h. hall_name a = name h \<and> ha_day a = d \<and> ha_slot a = s \<and>
                  allocations a \<noteq> [] \<and>
                  (\<exists>rem. allocations a = fst (fill_hall (capacity h) (per_subject_limit hc)
                             (subjects_with_students rem) rem 0 []))) r used"
    by (elim exE conjE)
  from all2 have "list_all2 (\<lambda>a h. hall_name a = name h) r used"
    by (rule list_all2_mono) simp
  then have "map hall_name r = map name used"
    by (induction rule: list_all2_induct) simp_all
  with used show ?thesis by blast
qed

lemma allocate_halls_cells_of:
  assumes "allocate_halls tt hc = Inr res"
  shows "\<exists>rs. list_all2 (\<lambda>c r. \<forall>a\<in>set r. (ha_day a, ha_slot a) = c) (all_slots (config tt)) rs \<and>
              (\<forall>r\<in>set rs. \<exists>used. subseq used (sorted_halls hc) \<and> map hall_name r = map name used) \<and>
              hall_assignments res = concat rs"
proof -
  from allocate_halls_cells [OF assms] obtain rs where
    rs: "list_all2 (\<lambda>c r. allocate_slot tt hc (fst c) (snd c) = Inr r) (all_slots (config tt)) rs"
    and asgs: "hall_assignments res = concat rs"
    by (elim exE conjE)
  from rs have "list_all2 (\<lambda>c r. \<forall>a\<in>set r. (ha_day a, ha_slot a) = c) (all_slots (config tt)) rs"
  proof (rule list_all2_mono)
    fix c r assume "allocate_slot tt hc (fst c) (snd c) = Inr r"
    from allocate_slot_cell [OF this] show "\<forall>a\<in>set r. (ha_day a, ha_slot a) = c" by simp
  qed
  moreover have "\<exists>used. subseq used (sorted_halls hc) \<and> map hall_name r = map name used"
    if "r \<in> set rs" for r
  proof -
    from list_all2_right_member [OF rs that] obtain c where
      "allocate_slot tt hc (fst c) (snd c) = Inr r" by blast
    then show ?thesis by (rule allocate_slot_halls)
  qed
  ultimately show ?thesis using asgs by blast
qed

lemma positive_sum:
  fixes xs :: "(string \<times> int) list"
  shows "\<forall>(s, n)\<in>set xs. n > 0 \<Longrightarrow> xs \<noteq> [] \<Longrightarrow> sum_list (map snd xs) > 0"
proof (induction xs)
  case Nil
  then show ?case by simp
next
  case (Cons x xs)
  then show ?case by (cases xs) (auto simp: add_pos_pos)
qed

text \<open>
  C10. The assignments of a successful \<open>allocate_halls\<close> run are listed slot by slot in
  ascending day-major order: of two assignments, the earlier one has the smaller day, or the
  same day and a slot that is not greater. The hall names of one slot's assignments, in
  their order, are the names of a sublist of \<open>sorted_halls\<close>, the halls in descending
  capacity with halls of equal capacity in the order of the configuration. Every assignment
  seats at least one student: a hall that receives nobody has no assignment.
\<close>

theorem hall_assignments_order:
  assumes "allocate_halls tt hc = Inr res"
  shows "sorted_wrt (\<lambda>a b. ha_day a < ha_day b \<or> ha_day a = ha_day b \<and> ha_slot a \<le> ha_slot b)
           (hall_assignments res)
       \<and> (\<forall>d s. \<exists>used. subseq used (sorted_halls hc) \<and>
                   map hall_name (in_cell d s (hall_assignments res)) = map name used)
       \<and> sorted (rev (map capacity (sorted_halls hc)))
       \<and> (\<forall>v. filter (\<lambda>h. capacity h = v) (sorted_halls hc) = filter (\<lambda>h. capacity h = v) (halls hc))
       \<and> (\<forall>a\<in>set (hall_assignments res).
            allocations a \<noteq> [] \<and> sum_list (map snd (allocations a)) > 0)"
proof -
  from allocate_halls_cells_of [OF assms] obtain rs where
    cells: "list_all2 (\<lambda>c r. \<forall>a\<in>set r. (ha_day a, ha_slot a) = c) (all_slots (config tt)) rs"
    and used: "\<forall>r\<in>set rs. \<exists>used. subseq used (sorted_halls hc) \<and> map hall_name r = map name used"
    and asgs: "hall_assignments res = concat rs"
    by (elim exE conjE)
  from sorted_cells_concat [OF cells sorted_all_slots]
  have "sorted (map (\<lambda>a. (ha_day a, ha_slot a)) (hall_assignments res))"
    by (simp add: asgs)
  then have "sorted_wrt (\<lambda>a b. (ha_day a, ha_slot a) \<le> (ha_day b, ha_slot b)) (hall_assignments res)"
    by (simp add: sorted_map)
  then have order: "sorted_wrt (\<lambda>a b. ha_day a < ha_day b \<or> ha_day a = ha_day b \<and> ha_slot a \<le> ha_slot b)
           (hall_assignments res)"
    by (rule sorted_wrt_mono_rel [rotated]) (auto simp: less_eq_prod_def)
  have slot: "\<exists>used. subseq used (sorted_halls hc) \<and>
                   map hall_name (in_cell d s (hall_assignments res)) = map name used" for d s
  proof -
    have eq: "in_cell d s (hall_assignments res) =
              filter (\<lambda>a. (ha_day a, ha_slot a) = (d, s)) (concat rs)"
      by (simp add: in_cell_def asgs)
    from filter_cells_concat [OF cells distinct_all_slots, of "(d, s)"]
    show ?thesis
    proof
      assume "filter (\<lambda>a. (ha_day a, ha_slot a) = (d, s)) (concat rs) = []"
      with eq have "in_cell d s (hall_assignments res) = []" by simp
      then show ?thesis by (intro exI [of _ "[]"]) simp
    next
      assume "filter (\<lambda>a. (ha_day a, ha_slot a) = (d, s)) (concat rs) \<in> set rs"
      with eq have "in_cell d s (hall_assignments res) \<in> set rs" by simp
      with used show ?thesis by blast
    qed
  qed
  have seated: "allocations a \<noteq> [] \<and> sum_list (map snd (allocations a)) > 0"
    if "a \<in> set (hall_assignments res)" for a
  proof -
    from allocate_halls_member [OF assms that] obtain h rem where
      h: "h \<in> set (halls hc)" "hall_name a = name h"
      and ne: "allocations a \<noteq> []"
      and eq: "allocations a = fst (fill_hall (capacity h) (per_subject_limit hc)
                                  (subjects_with_students rem) rem 0 [])"
      by (elim bexE exE conjE)
    have "\<forall>(subj, n)\<in>set (allocations a). n > 0"
      using fill_hall_positive [of "[]" "capacity h" "per_subject_limit hc"
          "subjects_with_students rem" rem 0] eq
      by simp
    from positive_sum [OF this ne] ne show ?thesis by simp
  qed
  have desc: "sorted (rev (map capacity (sorted_halls hc)))"
    unfolding sorted_halls_def by (rule sorted_reverse_descending)
  have stable: "filter (\<lambda>h. capacity h = v) (sorted_halls hc) = filter (\<lambda>h. capacity h = v) (halls hc)"
    for v
    unfolding sorted_halls_def by (rule sorted_reverse_stable)
  from order slot desc stable seated show ?thesis by blast
qed

theorem hall_assignments_order_witness:
  "allocate_halls two_slot_timetable small_big_halls = Inr two_slot_allocation
   \<and> map (\<lambda>a. (ha_day a, ha_slot a)) (hall_assignments two_slot_allocation) = [(0, 0), (0, 0), (0, 1)]
   \<and> sorted_wrt (\<lambda>a b. ha_day a < ha_day b \<or> ha_day a = ha_day b \<and> ha_slot a \<le> ha_slot b)
           (hall_assignments two_slot_allocation)
   \<and> map name (sorted_halls small_big_halls) = [''Big'', ''Small'']
   \<and> sorted (rev (map capacity (sorted_halls small_big_halls)))
   \<and> map hall_name (in_cell 0 0 (hall_assignments two_slot_allocation)) = [''Big'', ''Small'']
   \<and> map hall_name (in_cell 0 1 (hall_assignments two_slot_allocation)) = [''Big'']
   \<and> list_all (\<lambda>a. allocations a \<noteq> [] \<and> sum_list (map snd (allocations a)) > 0)
        (hall_assignments two_slot_allocation)"
proof -
  from hall_assignments_order [OF allocate_halls_two_slot]
  have order: "sorted_wrt (\<lambda>a b. ha_day a < ha_day b \<or> ha_day a = ha_day b \<and> ha_slot a \<le> ha_slot b)
           (hall_assignments two_slot_allocation)"
    and desc: "sorted (rev (map capacity (sorted_halls small_big_halls)))"
    and seated: "\<forall>a\<in>set (hall_assignments two_slot_allocation).
            allocations a \<noteq> [] \<and> sum_list (map snd (allocations a)) > 0"
    by blast+
  from seated have "list_all (\<lambda>a. allocations a \<noteq> [] \<and> sum_list (map snd (allocations a)) > 0)
        (hall_assignments two_slot_allocation)"
    by (simp add: list_all_iff)
  moreover have "map (\<lambda>a. (ha_day a, ha_slot a)) (hall_assignments two_slot_allocation)
      = [(0, 0), (0, 0), (0, 1)]"
    by (simp add: two_slot_allocation_def)
  moreover have "map name (sorted_halls small_big_halls) = [''Big'', ''Small'']"
    by (simp add: sorted_halls_def sorted_reverse_def small_big_halls_def)
  moreover have "map hall_name (in_cell 0 0 (hall_assignments two_slot_allocation)) = [''Big'', ''Small'']"
      "map hall_name (in_cell 0 1 (hall_assignments two_slot_allocation)) = [''Big'']"
    by (simp_all add: in_cell_def two_slot_allocation_def)
  ultimately show ?thesis using order desc allocate_halls_two_slot by simp
qed

subsection \<open>Hall allocation: every student is seated\<close>

lemma seats_append [simp]: "seats x (xs @ ys) = seats x xs + seats x ys"
  by (simp add: seats_def)

lemma seats_single [simp]: "seats x [(k, n)] = (if k = x then n else 0)"
  by (simp add: seats_def)

lemma seats_Nil [simp]: "seats x [] = 0"
  by (simp add: seats_def)

lemma seated_append [simp]: "seated x (xs @ ys) = seated x xs + seated x ys"
  by (simp add: seated_def)

lemma seated_Nil [simp]: "seated x [] = 0"
  by (simp add: seated_def)

lemma count_of_map_entry:
  "count_of x (AList.map_entry k f d) =
     (if x = k \<and> k \<in> fst ` set d then f (count_of k d) else count_of x d)"
  by (induction d) (force simp: count_of_def)+

lemma count_of_map_default:
  "count_of x (map_default k v f d) =
     (if x = k then (if k \<in> fst ` set d then f (count_of k d) else v) else count_of x d)"
  by (induction d) (force simp: count_of_def)+

lemma count_of_member:
  "distinct (map fst d) \<Longrightarrow> (k, v) \<in> set d \<Longrightarrow> count_of k d = v"
  by (simp add: count_of_def)

lemma set_map_entry:
  "distinct (map fst d) \<Longrightarrow> (k, v) \<in> set d \<Longrightarrow>
   set (AList.map_entry k f d) = insert (k, f v) (set d - {(k, v)})"
proof (induction d)
  case Nil
  then show ?case by simp
next
  case (Cons p ps)
  show ?case
  proof (cases "fst p = k")
    case True
    with Cons.prems have "p = (k, v)"
      by (cases p) (auto simp: image_iff)
    with Cons.prems show ?thesis by (auto simp: image_iff)
  next
    case False
    with Cons have "set (AList.map_entry k f ps) = insert (k, f v) (set ps - {(k, v)})"
      by auto
    with False Cons.prems show ?thesis by (auto simp: image_iff)
  qed
qed

lemma fill_hall_conserves:
  assumes "distinct (map fst snapshot)"
    and "\<forall>(s, c)\<in>set snapshot. (s, c) \<in> set remaining"
    and "distinct (map fst remaining)"
    and "\<forall>(s, v)\<in>set remaining. v \<ge> 0"
  shows "distinct (map fst (snd (fill_hall cap limit snapshot remaining used acc)))
       \<and> (\<forall>(s, v)\<in>set (snd (fill_hall cap limit snapshot remaining used acc)). v \<ge> 0)
       \<and> seats x (fst (fill_hall cap limit snapshot remaining used acc))
           + count_of x (snd (fill_hall cap limit snapshot remaining used acc))
         = seats x acc + count_of x remaining"
  using assms
proof (induction cap limit snapshot remaining used acc rule: fill_hall.induct)
  case (1 cap limit remaining used hall_allocation)
  then show ?case by simp
next
  case (2 cap limit subj cnt rest remaining used hall_allocation)
  show ?case
  proof (cases "used \<ge> cap")
    case True
    with "2.prems" show ?thesis by simp
  next
    case False
    let ?amount = "allocate_amount cap limit remaining used cnt"
    show ?thesis
    proof (cases "?amount > 0")
      case F2: False
      from "2.prems" have "distinct (map fst rest)" "\<forall>(s, c)\<in>set rest. (s, c) \<in> set remaining"
        by auto
      from "2.IH"(2) [OF False refl F2 this "2.prems"(3,4)] False F2
      show ?thesis by (simp add: Let_def)
    next
      case True
      let ?rem = "AList.map_entry subj (\<lambda>v. v - ?amount) remaining"
      from "2.prems"(2) have mem: "(subj, cnt) \<in> set remaining" by simp
      with "2.prems"(3) have cnt: "count_of subj remaining = cnt" by (rule count_of_member)
      from mem have key: "subj \<in> fst ` set remaining" by force
      have le: "?amount \<le> cnt" by (rule allocate_amount_le_count)
      have d: "distinct (map fst rest)" using "2.prems"(1) by simp
      have fresh: "subj \<notin> fst ` set rest" using "2.prems"(1) by simp
      have set_rem: "set ?rem = insert (subj, cnt - ?amount) (set remaining - {(subj, cnt)})"
        using "2.prems"(3) mem by (rule set_map_entry)
      have snap: "\<forall>(s, c)\<in>set rest. (s, c) \<in> set ?rem"
        using "2.prems"(2) fresh unfolding set_rem by force
      have dr: "distinct (map fst ?rem)"
        using "2.prems"(3) by (rule distinct_map_entry)
      have nn: "\<forall>(s, v)\<in>set ?rem. v \<ge> 0"
        using "2.prems"(4) le unfolding set_rem by auto
      have cnt': "count_of x ?rem = count_of x remaining - (if x = subj then ?amount else 0)"
        using key cnt by (simp add: count_of_map_entry)
      from "2.IH"(1) [OF False refl True d snap dr nn] False True cnt'
      show ?thesis by (simp add: Let_def)
    qed
  qed
qed

lemma distinct_map_mset:
  "mset xs = mset ys \<Longrightarrow> distinct (map f xs) = distinct (map f ys)"
  by (metis mset_eq_imp_distinct_iff mset_map)

lemma subjects_with_students_snapshot:
  assumes "distinct (map fst remaining)"
  shows "distinct (map fst (subjects_with_students remaining))"
    and "\<forall>(s, c)\<in>set (subjects_with_students remaining). (s, c) \<in> set remaining"
proof -
  have "distinct (map fst (filter (\<lambda>(s, c). c > 0) remaining))"
    using assms by (rule distinct_map_filter)
  then show "distinct (map fst (subjects_with_students remaining))"
    unfolding subjects_with_students_def
    using distinct_map_mset [OF mset_sorted_reverse, of fst snd "filter (\<lambda>(s, c). c > 0) remaining"]
    by simp
  show "\<forall>(s, c)\<in>set (subjects_with_students remaining). (s, c) \<in> set remaining"
    by (auto simp: subjects_with_students_def)
qed

lemma count_of_settled:
  assumes "\<not> list_ex (\<lambda>(s, c). c > 0) remaining" and "\<forall>(s, v)\<in>set remaining. v \<ge> 0"
  shows "count_of x remaining = 0"
proof (cases "map_of remaining x")
  case None
  then show ?thesis by (simp add: count_of_def)
next
  case (Some v)
  then have "(x, v) \<in> set remaining" by (rule map_of_SomeD)
  with assms have "v \<le> 0" "v \<ge> 0" by (auto simp: list_ex_iff)
  with Some show ?thesis by (simp add: count_of_def)
qed

lemma greedy_loop_conserves:
  "greedy_loop hc d s hs remaining allocs = Inr res \<Longrightarrow> distinct (map fst remaining) \<Longrightarrow>
   \<forall>(s, v)\<in>set remaining. v \<ge> 0 \<Longrightarrow>
   seated x res = seated x allocs + count_of x remaining"
proof (induction hs arbitrary: remaining allocs)
  case Nil
  from Nil.prems(1) have settled: "\<not> list_ex (\<lambda>(s, c). c > 0) remaining" and "res = allocs"
    by (auto split: if_splits)
  with count_of_settled [OF settled Nil.prems(3)] show ?case by simp
next
  case (Cons hall hs)
  show ?case
  proof (cases "list_ex (\<lambda>(subj, c). c > 0) remaining")
    case False
    with Cons.prems(1) have "res = allocs" by simp
    with count_of_settled [OF False Cons.prems(3)] show ?thesis by simp
  next
    case True
    let ?fh = "fill_hall (capacity hall) (per_subject_limit hc) (subjects_with_students remaining)
                 remaining 0 []"
    let ?a = "\<lparr>hall_name = name hall, ha_day = d, ha_slot = s, allocations = fst ?fh\<rparr>"
    let ?allocs' = "if fst ?fh \<noteq> [] then allocs @ [?a] else allocs"
    from Cons.prems(1) True have run: "greedy_loop hc d s hs (snd ?fh) ?allocs' = Inr res"
      by (simp add: case_prod_unfold Let_def)
    from fill_hall_conserves [OF subjects_with_students_snapshot [OF Cons.prems(2)] Cons.prems(2,3),
        of "capacity hall" "per_subject_limit hc" 0 "[]" x]
    have dr: "distinct (map fst (snd ?fh))" and nn: "\<forall>(s, v)\<in>set (snd ?fh). v \<ge> 0"
      and eq: "seats x (fst ?fh) + count_of x (snd ?fh) = count_of x remaining"
      by simp_all
    from Cons.IH [OF run dr nn] have "seated x res = seated x ?allocs' + count_of x (snd ?fh)" .
    moreover have "seated x ?allocs' = seated x allocs + seats x (fst ?fh)"
      by (simp add: seated_def)
    ultimately show ?thesis using eq by simp
  qed
qed

lemma count_of_absent: "k \<notin> fst ` set d \<Longrightarrow> count_of k d = 0"
  by (simp add: count_of_def map_of_eq_None_iff [THEN iffD2])

lemma count_of_add:
  "count_of x (map_default k n (\<lambda>v. v + n) d) = count_of x d + (if x = k then n else 0)"
  by (simp add: count_of_map_default count_of_absent)

lemma nonneg_map_default:
  assumes "\<forall>(s, v)\<in>set d. v \<ge> 0" and "(n::int) \<ge> 0"
  shows "\<forall>(s, v)\<in>set (map_default k n (\<lambda>v. v + n) d). v \<ge> 0"
  using assms by (induction d) auto

lemma group_students:
  assumes "distinct sis" and "n \<ge> 0"
  shows "distinct (map fst acc) \<Longrightarrow> \<forall>(s, v)\<in>set acc. v \<ge> 0 \<Longrightarrow>
     distinct (map fst (foldl (\<lambda>acc' subj. if subj \<in> G then map_default subj n (\<lambda>v. v + n) acc'
                                else acc') acc sis))
   \<and> (\<forall>(s, v)\<in>set (foldl (\<lambda>acc' subj. if subj \<in> G then map_default subj n (\<lambda>v. v + n) acc'
                                else acc') acc sis). v \<ge> 0)
   \<and> count_of x (foldl (\<lambda>acc' subj. if subj \<in> G then map_default subj n (\<lambda>v. v + n) acc'
                                else acc') acc sis)
       = count_of x acc + (if x \<in> set sis \<and> x \<in> G then n else 0)"
  using assms(1)
proof (induction sis arbitrary: acc)
  case Nil
  then show ?case by simp
next
  case (Cons subj sis)
  let ?acc = "if subj \<in> G then map_default subj n (\<lambda>v. v + n) acc else acc"
  have d: "distinct (map fst ?acc)"
    using Cons.prems(1) by (simp add: distinct_map_default)
  have nn: "\<forall>(s, v)\<in>set ?acc. v \<ge> 0"
    using nonneg_map_default [OF Cons.prems(2) assms(2)] Cons.prems(2) by simp
  have c: "count_of x ?acc = count_of x acc + (if x = subj \<and> x \<in> G then n else 0)"
    by (auto simp: count_of_add)
  from Cons.prems(3) have "distinct sis" "subj \<notin> set sis" by simp_all
  with Cons.IH [OF d nn] c show ?case by auto
qed

lemma groups_students:
  assumes "distinct sis" and "\<forall>g\<in>set gs. group_size g \<ge> 0"
  shows "distinct (map fst acc) \<Longrightarrow> \<forall>(s, v)\<in>set acc. v \<ge> 0 \<Longrightarrow>
     distinct (map fst (foldl (\<lambda>acc g.
              foldl (\<lambda>acc' subj.
                       if subj \<in> set (group_subjects g)
                       then map_default subj (group_size g) (\<lambda>v. v + group_size g) acc'
                       else acc')
                acc sis) acc gs))
   \<and> (\<forall>(s, v)\<in>set (foldl (\<lambda>acc g.
              foldl (\<lambda>acc' subj.
                       if subj \<in> set (group_subjects g)
                       then map_default subj (group_size g) (\<lambda>v. v + group_size g) acc'
                       else acc')
                acc sis) acc gs). v \<ge> 0)
   \<and> count_of x (foldl (\<lambda>acc g.
              foldl (\<lambda>acc' subj.
                       if subj \<in> set (group_subjects g)
                       then map_default subj (group_size g) (\<lambda>v. v + group_size g) acc'
                       else acc')
                acc sis) acc gs)
       = count_of x acc + (if x \<in> set sis then spec_demand gs x else 0)"
  using assms(2)
proof (induction gs arbitrary: acc)
  case Nil
  then show ?case by (simp add: spec_demand_def)
next
  case (Cons g gs)
  let ?acc = "foldl (\<lambda>acc' subj.
                       if subj \<in> set (group_subjects g)
                       then map_default subj (group_size g) (\<lambda>v. v + group_size g) acc'
                       else acc')
                acc sis"
  from Cons.prems(3) have n: "group_size g \<ge> 0" and rest: "\<forall>g\<in>set gs. group_size g \<ge> 0"
    by simp_all
  from group_students [OF assms(1) n Cons.prems(1,2), of "set (group_subjects g)" x]
  have d: "distinct (map fst ?acc)" and nn: "\<forall>(s, v)\<in>set ?acc. v \<ge> 0"
    and c: "count_of x ?acc =
            count_of x acc + (if x \<in> set sis \<and> x \<in> set (group_subjects g) then group_size g else 0)"
    by simp_all
  from Cons.IH [OF d nn rest] c show ?case
    by (simp add: spec_demand_def)
qed

lemma subject_students_demand:
  assumes "distinct sis" and "\<forall>g\<in>set gs. group_size g \<ge> 0"
  shows "distinct (map fst (subject_students gs sis))"
    and "\<forall>(s, v)\<in>set (subject_students gs sis). v \<ge> 0"
    and "count_of x (subject_students gs sis) = (if x \<in> set sis then spec_demand gs x else 0)"
  using groups_students [OF assms, of "[]" x]
  by (simp_all add: subject_students_def count_of_def)

lemma allocate_slot_conserves:
  assumes "allocate_slot tt hc d s = Inr r"
    and "distinct (subjects_in_slot tt d s)"
    and "\<forall>g\<in>set (groups (config tt)). group_size g \<ge> 0"
  shows "seated x r =
     (if x \<in> set (subjects_in_slot tt d s) then spec_demand (groups (config tt)) x else 0)"
proof (cases "subjects_in_slot tt d s = []")
  case True
  with assms(1) have "r = []" by (simp add: allocate_slot_def)
  with True show ?thesis by simp
next
  case False
  let ?ss = "subject_students (groups (config tt)) (subjects_in_slot tt d s)"
  from False assms(1) have run: "greedy_loop hc d s (sorted_halls hc) ?ss [] = Inr r"
    by (simp add: allocate_slot_def greedy_allocate_def)
  from greedy_loop_conserves [OF run subject_students_demand(1,2) [OF assms(2,3)]]
  have "seated x r = count_of x ?ss" by simp
  with subject_students_demand(3) [OF assms(2,3)] show ?thesis by simp
qed

lemma allocate_cells_of:
  assumes "list_all2 (\<lambda>c r. allocate_slot tt hc (fst c) (snd c) = Inr r) cs rs"
  shows "list_all2 (\<lambda>c r. \<forall>a\<in>set r. (ha_day a, ha_slot a) = c) cs rs"
  using assms
proof (rule list_all2_mono)
  fix c r assume "allocate_slot tt hc (fst c) (snd c) = Inr r"
  from allocate_slot_cell [OF this] show "\<forall>a\<in>set r. (ha_day a, ha_slot a) = c" by simp
qed

lemma in_cell_allocate_slot:
  "list_all2 (\<lambda>c r. allocate_slot tt hc (fst c) (snd c) = Inr r) cs rs \<Longrightarrow> distinct cs \<Longrightarrow>
   (d, s) \<in> set cs \<Longrightarrow> allocate_slot tt hc d s = Inr (in_cell d s (concat rs))"
proof (induction rule: list_all2_induct)
  case Nil
  then show ?case by simp
next
  case (Cons c cs r rs)
  have split: "in_cell d s (concat (r # rs)) = in_cell d s r @ in_cell d s (concat rs)"
    by (simp add: in_cell_def)
  from allocate_slot_cell [OF Cons.hyps(1)] have cell: "\<forall>a\<in>set r. (ha_day a, ha_slot a) = c"
    by simp
  show ?case
  proof (cases "c = (d, s)")
    case True
    with Cons.prems have "(d, s) \<notin> set cs" by simp
    from filter_cells_other [OF allocate_cells_of [OF Cons.hyps(2)] this]
    have "in_cell d s (concat rs) = []"
      by (simp add: in_cell_def)
    moreover from cell True have "in_cell d s r = r"
      by (auto simp: in_cell_def filter_id_conv)
    ultimately show ?thesis using split True Cons.hyps(1) by simp
  next
    case False
    with cell have "in_cell d s r = []"
      by (auto simp: in_cell_def filter_empty_conv)
    moreover from False Cons.prems have "(d, s) \<in> set cs" "distinct cs" by auto
    ultimately show ?thesis using split Cons.IH by simp
  qed
qed


lemma subjects_in_first_slot:
  "subjects_in_slot two_slot_timetable 0 0 = [''M'']"
  by (simp add: subjects_in_slot_def two_slot_timetable_def)


subsection \<open>Hall allocation: not enough seats\<close>

lemma total_map_entry:
  "distinct (map fst d) \<Longrightarrow> (k, v) \<in> set d \<Longrightarrow>
   sum_list (map snd (AList.map_entry k (\<lambda>v. v - a) d)) = sum_list (map snd d) - (a::int)"
proof (induction d)
  case Nil
  then show ?case by simp
next
  case (Cons p ps)
  show ?case
  proof (cases "fst p = k")
    case True
    then show ?thesis by simp
  next
    case False
    with Cons show ?thesis by auto
  qed
qed

lemma fill_hall_total:
  assumes "distinct (map fst snapshot)"
    and "\<forall>(s, c)\<in>set snapshot. (s, c) \<in> set remaining"
    and "distinct (map fst remaining)"
  shows "sum_list (map snd (snd (fill_hall cap limit snapshot remaining used acc)))
           + sum_list (map snd (fst (fill_hall cap limit snapshot remaining used acc)))
         = sum_list (map snd remaining) + sum_list (map snd acc)"
  using assms
proof (induction cap limit snapshot remaining used acc rule: fill_hall.induct)
  case (1 cap limit remaining used hall_allocation)
  then show ?case by simp
next
  case (2 cap limit subj cnt rest remaining used hall_allocation)
  show ?case
  proof (cases "used \<ge> cap")
    case True
    then show ?thesis by simp
  next
    case False
    let ?amount = "allocate_amount cap limit remaining used cnt"
    from "2.prems" have d: "distinct (map fst rest)" by simp
    show ?thesis
    proof (cases "?amount > 0")
      case F2: False
      from "2.prems" have "\<forall>(s, c)\<in>set rest. (s, c) \<in> set remaining" by auto
      from "2.IH"(2) [OF False refl F2 d this "2.prems"(3)] False F2
      show ?thesis by (simp add: Let_def)
    next
      case True
      let ?rem = "AList.map_entry subj (\<lambda>v. v - ?amount) remaining"
      from "2.prems"(2) have mem: "(subj, cnt) \<in> set remaining" by simp
      have fresh: "subj \<notin> fst ` set rest" using "2.prems"(1) by simp
      have set_rem: "set ?rem = insert (subj, cnt - ?amount) (set remaining - {(subj, cnt)})"
        using "2.prems"(3) mem by (rule set_map_entry)
      have snap: "\<forall>(s, c)\<in>set rest. (s, c) \<in> set ?rem"
        using "2.prems"(2) fresh unfolding set_rem by force
      have dr: "distinct (map fst ?rem)"
        using "2.prems"(3) by (rule distinct_map_entry)
      have tot: "sum_list (map snd ?rem) = sum_list (map snd remaining) - ?amount"
        using "2.prems"(3) mem by (rule total_map_entry)
      from "2.IH"(1) [OF False refl True d snap dr] False True tot
      show ?thesis by (simp add: Let_def)
    qed
  qed
qed

lemma fill_hall_within:
  assumes "cap \<ge> 0"
  shows "sum_list (map snd (fst (fill_hall cap limit snapshot remaining 0 []))) \<le> cap"
proof (cases "fst (fill_hall cap limit snapshot remaining 0 []) = []")
  case True
  with assms show ?thesis by simp
next
  case False
  with fill_hall_capacity [of "[]" 0 cap limit snapshot remaining] show ?thesis by simp
qed

lemma positive_entry:
  fixes d :: "(string \<times> int) list"
  shows "sum_list (map snd d) > 0 \<Longrightarrow> list_ex (\<lambda>(s, c). c > 0) d"
proof (induction d)
  case Nil
  then show ?case by simp
next
  case (Cons p ps)
  then show ?case by (cases "snd p > 0") (auto simp: case_prod_unfold)
qed

lemma greedy_loop_short:
  assumes "\<forall>h\<in>set hs. capacity h \<ge> 0"
  shows "distinct (map fst remaining) \<Longrightarrow> \<forall>(s, v)\<in>set remaining. v \<ge> 0 \<Longrightarrow>
   sum_list (map snd remaining) > sum_list (map capacity hs) \<Longrightarrow>
   \<exists>rem. greedy_loop hc d s hs remaining allocs =
            raise InsufficientHallCapacityError (Insufficient_hall_capacity_for_slot (d + 1) (s + 1))
              (Hall_diag (sum_list (map snd rem)) (total_capacity hc) rem) \<and>
          sum_list (map snd rem) \<ge> sum_list (map snd remaining) - sum_list (map capacity hs)"
  using assms
proof (induction hs arbitrary: remaining allocs)
  case Nil
  from Nil.prems(3) have "list_ex (\<lambda>(s, c). c > 0) remaining"
    by (intro positive_entry) simp
  then show ?case by (intro exI [of _ remaining]) simp
next
  case (Cons hall hs)
  from Cons.prems(4) have cap: "capacity hall \<ge> 0" and caps: "\<forall>h\<in>set hs. capacity h \<ge> 0"
    by simp_all
  then have "sum_list (map capacity hs) \<ge> 0" by (intro sum_list_nonneg) auto
  with cap Cons.prems(3) have pos: "list_ex (\<lambda>(s, c). c > 0) remaining"
    by (intro positive_entry) simp
  let ?fh = "fill_hall (capacity hall) (per_subject_limit hc) (subjects_with_students remaining)
                 remaining 0 []"
  let ?a = "\<lparr>hall_name = name hall, ha_day = d, ha_slot = s, allocations = fst ?fh\<rparr>"
  let ?allocs' = "if fst ?fh \<noteq> [] then allocs @ [?a] else allocs"
  from pos have step: "greedy_loop hc d s (hall # hs) remaining allocs =
      greedy_loop hc d s hs (snd ?fh) ?allocs'"
    by (simp add: case_prod_unfold Let_def)
  note snap = subjects_with_students_snapshot [OF Cons.prems(1)]
  from fill_hall_conserves [OF snap Cons.prems(1,2), of "capacity hall" "per_subject_limit hc" 0 "[]"]
  have dr: "distinct (map fst (snd ?fh))" and nn: "\<forall>(s, v)\<in>set (snd ?fh). v \<ge> 0"
    by simp_all
  from fill_hall_total [OF snap Cons.prems(1), of "capacity hall" "per_subject_limit hc" 0 "[]"]
  have tot: "sum_list (map snd (snd ?fh)) + sum_list (map snd (fst ?fh)) = sum_list (map snd remaining)"
    by simp
  from fill_hall_within [OF cap] have le: "sum_list (map snd (fst ?fh)) \<le> capacity hall" .
  from tot le Cons.prems(3) have short: "sum_list (map snd (snd ?fh)) > sum_list (map capacity hs)"
    by simp
  from Cons.IH [OF dr nn short caps, of ?allocs'] obtain rem where
    r: "greedy_loop hc d s hs (snd ?fh) ?allocs' =
            raise InsufficientHallCapacityError (Insufficient_hall_capacity_for_slot (d + 1) (s + 1))
              (Hall_diag (sum_list (map snd rem)) (total_capacity hc) rem)"
    and ge: "sum_list (map snd rem) \<ge> sum_list (map snd (snd ?fh)) - sum_list (map capacity hs)"
    by blast
  from ge tot le have "sum_list (map snd rem) \<ge>
      sum_list (map snd remaining) - sum_list (map capacity (hall # hs))"
    by simp
  with r step show ?case by (intro exI [of _ rem]) simp
qed

lemma sum_capacity_sorted_halls: "sum_list (map capacity (sorted_halls hc)) = total_capacity hc"
proof -
  have "mset (map capacity (sorted_halls hc)) = mset (map capacity (halls hc))"
    by (simp add: sorted_halls_def)
  then have "sum_mset (mset (map capacity (sorted_halls hc))) = sum_mset (mset (map capacity (halls hc)))"
    by simp
  then show ?thesis by (simp only: sum_mset_sum_list total_capacity_def)
qed

lemma total_delete:
  fixes d :: "(string \<times> int) list"
  shows "distinct (map fst d) \<Longrightarrow>
     sum_list (map snd d) = count_of x d + sum_list (map snd (AList.delete x d))"
proof (induction d)
  case Nil
  then show ?case by (simp add: count_of_def)
next
  case (Cons p ps)
  show ?case
  proof (cases "fst p = x")
    case True
    with Cons.prems have "x \<notin> fst ` set ps" by auto
    then have "AList.delete x ps = ps" by (induction ps) auto
    with True show ?thesis by (simp add: count_of_def)
  next
    case False
    with Cons show ?thesis by (simp add: count_of_def)
  qed
qed

lemma count_of_delete: "y \<noteq> x \<Longrightarrow> count_of y (AList.delete x d) = count_of y d"
  by (simp add: count_of_def delete_conv')

lemma total_count_of:
  fixes d :: "(string \<times> int) list"
  shows "distinct sis \<Longrightarrow> distinct (map fst d) \<Longrightarrow> fst ` set d \<subseteq> set sis \<Longrightarrow>
     sum_list (map snd d) = sum_list (map (\<lambda>x. count_of x d) sis)"
proof (induction sis arbitrary: d)
  case Nil
  then show ?case by simp
next
  case (Cons x xs)
  let ?d = "AList.delete x d"
  have d: "distinct (map fst ?d)" using Cons.prems(2) by (rule distinct_delete)
  have keys: "fst ` set ?d \<subseteq> set xs"
    using Cons.prems(3) by (auto simp: AList.delete_eq)
  from Cons.prems(1) have "distinct xs" "x \<notin> set xs" by simp_all
  then have same: "map (\<lambda>y. count_of y ?d) xs = map (\<lambda>y. count_of y d) xs"
    by (intro map_cong refl count_of_delete) auto
  from Cons.IH [OF \<open>distinct xs\<close> d keys] same total_delete [OF Cons.prems(2), of x]
  show ?case by simp
qed

lemma subject_students_keys: "fst ` set (subject_students gs sis) \<subseteq> set sis"
proof -
  have inner: "fst ` set acc \<subseteq> set sis' \<Longrightarrow> set xs \<subseteq> set sis' \<Longrightarrow>
      fst ` set (foldl (\<lambda>acc' subj. if subj \<in> G then map_default subj n (\<lambda>v. v + n) acc' else acc')
                   acc xs) \<subseteq> set sis'"
    for acc :: "(string \<times> int) list" and sis' xs G n
    by (induction xs arbitrary: acc) (simp_all add: dom_map_default)
  have outer: "fst ` set acc \<subseteq> set sis \<Longrightarrow>
      fst ` set (foldl (\<lambda>acc g.
              foldl (\<lambda>acc' subj.
                       if subj \<in> set (group_subjects g)
                       then map_default subj (group_size g) (\<lambda>v. v + group_size g) acc'
                       else acc')
                acc sis) acc gs) \<subseteq> set sis"
    for acc :: "(string \<times> int) list"
  proof (induction gs arbitrary: acc)
    case Nil
    then show ?case by simp
  next
    case (Cons g gs)
    from inner [OF Cons.prems subset_refl, of "set (group_subjects g)" "group_size g"]
    show ?case by (simp add: Cons.IH)
  qed
  from outer [of "[]"] show ?thesis by (simp add: subject_students_def)
qed

lemma subject_students_total:
  assumes "distinct sis" and "\<forall>g\<in>set gs. group_size g \<ge> 0"
  shows "sum_list (map snd (subject_students gs sis)) = sum_list (map (spec_demand gs) sis)"
proof -
  have "sum_list (map snd (subject_students gs sis))
      = sum_list (map (\<lambda>x. count_of x (subject_students gs sis)) sis)"
    using assms(1) subject_students_demand(1) [OF assms] subject_students_keys
    by (rule total_count_of)
  also have "map (\<lambda>x. count_of x (subject_students gs sis)) sis = map (spec_demand gs) sis"
    by (intro map_cong refl) (simp add: subject_students_demand(3) [OF assms])
  finally show ?thesis .
qed

lemma allocate_slot_short:
  assumes sizes: "\<forall>g\<in>set (groups (config tt)). group_size g \<ge> 0"
    and caps: "\<forall>h\<in>set (halls hc). capacity h \<ge> 0"
    and once: "distinct (subjects_in_slot tt d s)"
    and short: "spec_slot_demand tt d s > total_capacity hc"
  shows "\<exists>rem. allocate_slot tt hc d s =
            raise InsufficientHallCapacityError (Insufficient_hall_capacity_for_slot (d + 1) (s + 1))
              (Hall_diag (sum_list (map snd rem)) (total_capacity hc) rem) \<and>
          sum_list (map snd rem) \<ge> spec_slot_demand tt d s - total_capacity hc"
proof -
  let ?sis = "subjects_in_slot tt d s"
  let ?ss = "subject_students (groups (config tt)) ?sis"
  from caps have "total_capacity hc \<ge> 0"
    unfolding total_capacity_def by (intro sum_list_nonneg) auto
  with short have "spec_slot_demand tt d s > 0" by simp
  then have ne: "?sis \<noteq> []" by (auto simp: spec_slot_demand_def)
  have tot: "sum_list (map snd ?ss) = spec_slot_demand tt d s"
    using subject_students_total [OF once sizes] by (simp add: spec_slot_demand_def)
  from caps have caps': "\<forall>h\<in>set (sorted_halls hc). capacity h \<ge> 0"
    by (simp add: sorted_halls_def)
  from short tot have "sum_list (map snd ?ss) > sum_list (map capacity (sorted_halls hc))"
    by (simp add: sum_capacity_sorted_halls)
  from greedy_loop_short [OF caps' subject_students_demand(1,2) [OF once sizes] this, of hc d s "[]"]
  show ?thesis using ne tot
    by (simp add: allocate_slot_def greedy_allocate_def sum_capacity_sorted_halls)
qed

lemma greedy_loop_single_short:
  "\<forall>h\<in>set hs. capacity h > 0 \<Longrightarrow> v > sum_list (map capacity hs) \<Longrightarrow>
   greedy_loop hc d s hs [(k, v)] allocs =
     raise InsufficientHallCapacityError (Insufficient_hall_capacity_for_slot (d + 1) (s + 1))
       (Hall_diag (v - sum_list (map capacity hs)) (total_capacity hc)
          [(k, v - sum_list (map capacity hs))])"
proof (induction hs arbitrary: v allocs)
  case Nil
  then show ?case by simp
next
  case (Cons hall hs)
  from Cons.prems(1) have cap: "capacity hall > 0" and caps: "\<forall>h\<in>set hs. capacity h > 0"
    by simp_all
  from caps have "sum_list (map capacity hs) \<ge> 0"
    by (intro sum_list_nonneg) auto
  with Cons.prems(2) cap have v: "v > capacity hall" "v > 0" "v - capacity hall > sum_list (map capacity hs)"
    by simp_all
  from v cap have fh: "fill_hall (capacity hall) (per_subject_limit hc) (subjects_with_students [(k, v)])
      [(k, v)] 0 [] = ([(k, capacity hall)], [(k, v - capacity hall)])"
    by (simp add: subjects_with_students_def sorted_reverse_def allocate_amount_def
        positive_count_def Let_def)
  from v fh have "greedy_loop hc d s (hall # hs) [(k, v)] allocs =
      greedy_loop hc d s hs [(k, v - capacity hall)]
        (allocs @ [\<lparr>hall_name = name hall, ha_day = d, ha_slot = s,
                     allocations = [(k, capacity hall)]\<rparr>])"
    by simp
  with Cons.IH [OF caps v(3)] show ?case by (simp add: algebra_simps)
qed

lemma single_key:
  fixes d :: "(string \<times> int) list"
  assumes "distinct (map fst d)" and "fst ` set d \<subseteq> {k}"
  shows "d = [] \<or> d = [(k, count_of k d)]"
proof (cases d)
  case Nil
  then show ?thesis by simp
next
  case (Cons p ps)
  with assms(2) have p: "fst p = k" by simp
  have "ps = []"
  proof (cases ps)
    case Nil
    then show ?thesis .
  next
    case (Cons q qs)
    with \<open>d = p # ps\<close> assms(2) have "fst q = k" by simp
    with p Cons \<open>d = p # ps\<close> assms(1) show ?thesis by simp
  qed
  with Cons p show ?thesis by (cases p) (simp add: count_of_def)
qed

lemma allocate_slot_single_short:
  assumes sizes: "\<forall>g\<in>set (groups (config tt)). group_size g \<ge> 0"
    and caps: "\<forall>h\<in>set (halls hc). capacity h > 0"
    and single: "subjects_in_slot tt d s = [k]"
    and short: "spec_slot_demand tt d s > total_capacity hc"
  shows "allocate_slot tt hc d s =
     raise InsufficientHallCapacityError (Insufficient_hall_capacity_for_slot (d + 1) (s + 1))
       (Hall_diag (spec_slot_demand tt d s - total_capacity hc) (total_capacity hc)
          [(k, spec_slot_demand tt d s - total_capacity hc)])"
proof -
  let ?ss = "subject_students (groups (config tt)) [k]"
  have once: "distinct [k]" by simp
  from caps have "total_capacity hc \<ge> 0"
    unfolding total_capacity_def by (intro sum_list_nonneg) auto
  with short have pos: "spec_slot_demand tt d s > 0" by simp
  have tot: "sum_list (map snd ?ss) = spec_slot_demand tt d s"
    using subject_students_total [OF once sizes] by (simp add: spec_slot_demand_def single)
  have cnt: "count_of k ?ss = spec_slot_demand tt d s"
    using subject_students_demand(3) [OF once sizes, of k] by (simp add: spec_slot_demand_def single)
  from single_key [OF subject_students_demand(1) [OF once sizes], of k] subject_students_keys [of _ "[k]"]
  have "?ss = [] \<or> ?ss = [(k, count_of k ?ss)]" by simp
  with tot pos cnt have ss: "?ss = [(k, spec_slot_demand tt d s)]" by auto
  from caps have caps': "\<forall>h\<in>set (sorted_halls hc). capacity h > 0"
    by (simp add: sorted_halls_def)
  from short have "spec_slot_demand tt d s > sum_list (map capacity (sorted_halls hc))"
    by (simp add: sum_capacity_sorted_halls)
  from greedy_loop_single_short [OF caps' this, of hc d s k "[]"] show ?thesis
    by (simp add: allocate_slot_def greedy_allocate_def single ss sum_capacity_sorted_halls)
qed

lemma greedy_loop_raises:
  "greedy_loop hc d s hs remaining allocs = Inl e \<Longrightarrow> exn_class e = InsufficientHallCapacityError"
proof (induction hs arbitrary: remaining allocs)
  case Nil
  then show ?case by (auto simp: raise_def split: if_splits)
next
  case (Cons hall hs)
  then show ?case by (auto simp: case_prod_unfold Let_def split: if_splits)
qed

lemma allocate_slot_raises:
  "allocate_slot tt hc d s = Inl e \<Longrightarrow> exn_class e = InsufficientHallCapacityError"
  by (auto simp: allocate_slot_def greedy_allocate_def Let_def split: if_splits
      dest: greedy_loop_raises)

lemma allocate_cells_fails:
  "c \<in> set cs \<Longrightarrow> allocate_slot tt hc (fst c) (snd c) = Inl e \<Longrightarrow>
   \<exists>e'. allocate_cells tt hc cs acc = Inl e' \<and> exn_class e' = InsufficientHallCapacityError"
proof (induction cs arbitrary: acc)
  case Nil
  then show ?case by simp
next
  case (Cons c' cs)
  obtain d s where c': "c' = (d, s)" by (cases c')
  show ?case
  proof (cases "allocate_slot tt hc d s")
    case (Inl e')
    with c' allocate_slot_raises [OF Inl] show ?thesis by simp
  next
    case (Inr r)
    with Cons.prems c' have "c \<in> set cs" by auto
    from Cons.IH [OF this Cons.prems(2)] Inr c' show ?thesis by simp
  qed
qed

lemma allocate_cells_first:
  "\<forall>c'\<in>set pre. \<exists>r. allocate_slot tt hc (fst c') (snd c') = Inr r \<Longrightarrow>
   allocate_slot tt hc (fst c) (snd c) = Inl e \<Longrightarrow>
   allocate_cells tt hc (pre @ c # post) acc = Inl e"
proof (induction pre arbitrary: acc)
  case Nil
  then show ?case by (cases c) simp
next
  case (Cons c' pre)
  obtain d s where c': "c' = (d, s)" by (cases c')
  from Cons.prems(1) c' obtain r where "allocate_slot tt hc d s = Inr r" by auto
  with Cons c' show ?case by simp
qed

lemma all_slots_before:
  assumes "(d, s) \<in> set (all_slots c)"
  shows "\<exists>pre post. all_slots c = pre @ (d, s) # post \<and>
           (\<forall>c'\<in>set pre. c' \<in> set (all_slots c) \<and> (fst c' < d \<or> fst c' = d \<and> snd c' < s))"
proof -
  from split_list [OF assms] obtain pre post where eq: "all_slots c = pre @ (d, s) # post"
    by blast
  from sorted_wrt_all_slots [of c] have "\<forall>c'\<in>set pre. c' < (d, s)"
    unfolding eq by (simp add: sorted_wrt_append)
  then have "\<forall>c'\<in>set pre. fst c' < d \<or> fst c' = d \<and> snd c' < s"
    by (auto simp: less_prod_def)
  with eq show ?thesis by (intro exI [of _ pre] exI [of _ post]) auto
qed

lemma allocate_halls_Inl:
  "allocate_cells tt hc (all_slots (config tt)) [] = Inl e \<Longrightarrow> allocate_halls tt hc = Inl e"
  by (simp add: allocate_halls_def)



lemma allocate_slot_late_shortage_first:
  "allocate_slot late_shortage_timetable hall_of_60 0 0 =
     Inr [\<lparr>hall_name = ''H1'', ha_day = 0, ha_slot = 0, allocations = [(''M'', 50)]\<rparr>]"
  by (simp add: late_shortage_timetable_def hall_of_60_def allocate_slot_def subjects_in_slot_def
      subject_students_def greedy_allocate_def sorted_halls_def sorted_reverse_def
      subjects_with_students_def allocate_amount_def positive_count_def Let_def)


subsection \<open>Hall allocation: the per-subject limit\<close>

lemma fill_hall_recorded:
  "fst (fill_hall cap limit snapshot remaining used acc) =
     acc @ map recorded (fill_hall_trace cap limit snapshot remaining used)"
  by (induction cap limit snapshot remaining used acc rule: fill_hall.induct)
     (simp_all add: Let_def recorded_def)

lemma map_fst_map_entry: "map fst (AList.map_entry k f d) = map fst d"
  by (induction d) auto

lemma fill_hall_keys: "map fst (snd (fill_hall cap limit snapshot remaining used acc)) = map fst remaining"
  by (induction cap limit snapshot remaining used acc rule: fill_hall.induct)
     (simp_all add: Let_def map_fst_map_entry)

lemma fill_hall_trace_bounds:
  assumes "distinct (map fst snapshot)"
    and "\<forall>(s, c)\<in>set snapshot. (s, c) \<in> set remaining"
    and "distinct (map fst remaining)"
  shows "\<forall>e\<in>set (fill_hall_trace cap limit snapshot remaining used).
     (positive_count (ev_remaining e) \<noteq> 1 \<longrightarrow> ev_amount e \<le> limit) \<and>
     (positive_count (ev_remaining e) = 1 \<longrightarrow>
        ev_amount e = min (count_of (ev_subject e) (ev_remaining e)) (ev_available e)) \<and>
     0 < ev_amount e \<and>
     ev_amount e \<le> count_of (ev_subject e) (ev_remaining e) \<and>
     ev_amount e \<le> ev_available e \<and> ev_available e \<le> cap - used"
  using assms
proof (induction cap limit snapshot remaining used rule: fill_hall_trace.induct)
  case (1 cap limit remaining used)
  then show ?case by simp
next
  case (2 cap limit subj cnt rest remaining used)
  show ?case
  proof (cases "used \<ge> cap")
    case True
    then show ?thesis by simp
  next
    case False
    let ?amount = "allocate_amount cap limit remaining used cnt"
    from "2.prems" have d: "distinct (map fst rest)" by simp
    show ?thesis
    proof (cases "?amount > 0")
      case F2: False
      from "2.prems" have "\<forall>(s, c)\<in>set rest. (s, c) \<in> set remaining" by auto
      from "2.IH"(2) [OF False refl F2 d this "2.prems"(3)] False F2
      show ?thesis by (simp add: Let_def)
    next
      case True
      let ?rem = "AList.map_entry subj (\<lambda>v. v - ?amount) remaining"
      let ?e = "\<lparr>ev_subject = subj, ev_amount = ?amount, ev_remaining = remaining,
                 ev_available = cap - used\<rparr>"
      from "2.prems"(2) have mem: "(subj, cnt) \<in> set remaining" by simp
      with "2.prems"(3) have cnt: "count_of subj remaining = cnt" by (rule count_of_member)
      have fresh: "subj \<notin> fst ` set rest" using "2.prems"(1) by simp
      have set_rem: "set ?rem = insert (subj, cnt - ?amount) (set remaining - {(subj, cnt)})"
        using "2.prems"(3) mem by (rule set_map_entry)
      have snap: "\<forall>(s, c)\<in>set rest. (s, c) \<in> set ?rem"
        using "2.prems"(2) fresh unfolding set_rem by force
      have dr: "distinct (map fst ?rem)"
        using "2.prems"(3) by (rule distinct_map_entry)
      have here: "(positive_count remaining \<noteq> 1 \<longrightarrow> ?amount \<le> limit) \<and>
          (positive_count remaining = 1 \<longrightarrow> ?amount = min cnt (cap - used)) \<and>
          ?amount \<le> cnt \<and> ?amount \<le> cap - used"
        by (auto simp: allocate_amount_def Let_def min_def)
      from "2.IH"(1) [OF False refl True d snap dr]
      have later: "\<forall>e\<in>set (fill_hall_trace cap limit rest ?rem (used + ?amount)).
         (positive_count (ev_remaining e) \<noteq> 1 \<longrightarrow> ev_amount e \<le> limit) \<and>
         (positive_count (ev_remaining e) = 1 \<longrightarrow>
            ev_amount e = min (count_of (ev_subject e) (ev_remaining e)) (ev_available e)) \<and>
         0 < ev_amount e \<and>
         ev_amount e \<le> count_of (ev_subject e) (ev_remaining e) \<and>
         ev_amount e \<le> ev_available e \<and> ev_available e \<le> cap - used"
        using True by auto
      have trace: "fill_hall_trace cap limit ((subj, cnt) # rest) remaining used =
          ?e # fill_hall_trace cap limit rest ?rem (used + ?amount)"
        using False True by (simp add: Let_def)
      from here cnt True later show ?thesis unfolding trace by simp
    qed
  qed
qed

lemma subject_students_distinct: "distinct (map fst (subject_students gs sis))"
proof -
  have inner: "distinct (map fst acc) \<Longrightarrow>
      distinct (map fst (foldl (\<lambda>acc' subj. if subj \<in> G then map_default subj n (\<lambda>v. v + n) acc'
                                  else acc') acc xs))"
    for acc :: "(string \<times> int) list" and xs G n
    by (induction xs arbitrary: acc) (simp_all add: distinct_map_default)
  have outer: "distinct (map fst acc) \<Longrightarrow>
      distinct (map fst (foldl (\<lambda>acc g.
              foldl (\<lambda>acc' subj.
                       if subj \<in> set (group_subjects g)
                       then map_default subj (group_size g) (\<lambda>v. v + group_size g) acc'
                       else acc')
                acc sis) acc gs))"
    for acc :: "(string \<times> int) list"
  proof (induction gs arbitrary: acc)
    case Nil
    then show ?case by simp
  next
    case (Cons g gs)
    from inner [OF Cons.prems, of "set (group_subjects g)" "group_size g" sis]
    show ?case by (simp add: Cons.IH)
  qed
  from outer [of "[]"] show ?thesis by (simp add: subject_students_def)
qed

lemma greedy_loop_events:
  "greedy_loop hc d s hs remaining allocs = Inr res \<Longrightarrow> distinct (map fst remaining) \<Longrightarrow>
   \<exists>new. res = allocs @ new \<and>
     (\<forall>a\<in>set new. \<exists>h\<in>set hs. \<exists>rem. distinct (map fst rem) \<and> hall_name a = name h \<and>
        allocations a = fst (fill_hall (capacity h) (per_subject_limit hc)
                               (subjects_with_students rem) rem 0 []))"
proof (induction hs arbitrary: remaining allocs)
  case Nil
  then show ?case by (auto split: if_splits)
next
  case (Cons hall hs)
  show ?case
  proof (cases "list_ex (\<lambda>(subj, c). c > 0) remaining")
    case False
    with Cons.prems have "res = allocs" by simp
    then show ?thesis by simp
  next
    case True
    let ?fh = "fill_hall (capacity hall) (per_subject_limit hc) (subjects_with_students remaining)
                 remaining 0 []"
    let ?a = "\<lparr>hall_name = name hall, ha_day = d, ha_slot = s, allocations = fst ?fh\<rparr>"
    let ?allocs' = "if fst ?fh \<noteq> [] then allocs @ [?a] else allocs"
    from Cons.prems(1) True have run: "greedy_loop hc d s hs (snd ?fh) ?allocs' = Inr res"
      by (simp add: case_prod_unfold Let_def)
    have dr: "distinct (map fst (snd ?fh))"
      using Cons.prems(2) by (simp add: fill_hall_keys)
    from Cons.IH [OF run dr] obtain new where
      res: "res = ?allocs' @ new"
      and new: "\<forall>a\<in>set new. \<exists>h\<in>set hs. \<exists>rem. distinct (map fst rem) \<and> hall_name a = name h \<and>
        allocations a = fst (fill_hall (capacity h) (per_subject_limit hc)
                               (subjects_with_students rem) rem 0 [])"
      by blast
    have this_hall: "\<exists>h\<in>set (hall # hs). \<exists>rem. distinct (map fst rem) \<and> hall_name ?a = name h \<and>
        allocations ?a = fst (fill_hall (capacity h) (per_subject_limit hc)
                               (subjects_with_students rem) rem 0 [])"
      using Cons.prems(2) by (intro bexI [of _ hall] exI [of _ remaining]) simp_all
    from new have later: "\<forall>a\<in>set new. \<exists>h\<in>set (hall # hs). \<exists>rem. distinct (map fst rem) \<and>
        hall_name a = name h \<and>
        allocations a = fst (fill_hall (capacity h) (per_subject_limit hc)
                               (subjects_with_students rem) rem 0 [])"
      by auto
    show ?thesis
    proof (cases "fst ?fh \<noteq> []")
      case False
      with res later show ?thesis by (intro exI [of _ new]) simp
    next
      case ne: True
      with res have "res = allocs @ (?a # new)" by simp
      moreover from this_hall later have "\<forall>a\<in>set (?a # new). \<exists>h\<in>set (hall # hs). \<exists>rem.
        distinct (map fst rem) \<and> hall_name a = name h \<and>
        allocations a = fst (fill_hall (capacity h) (per_subject_limit hc)
                               (subjects_with_students rem) rem 0 [])"
        by (simp only: set_simps ball_simps)
      ultimately have "res = allocs @ (?a # new) \<and> (\<forall>a\<in>set (?a # new). \<exists>h\<in>set (hall # hs). \<exists>rem.
        distinct (map fst rem) \<and> hall_name a = name h \<and>
        allocations a = fst (fill_hall (capacity h) (per_subject_limit hc)
                               (subjects_with_students rem) rem 0 []))"
        by (rule conjI)
      then show ?thesis by (rule exI)
    qed
  qed
qed

lemma allocate_halls_events:
  assumes "allocate_halls tt hc = Inr res" and "a \<in> set (hall_assignments res)"
  shows "\<exists>h\<in>set (halls hc). \<exists>rem. distinct (map fst rem) \<and> hall_name a = name h \<and>
        allocations a = fst (fill_hall (capacity h) (per_subject_limit hc)
                               (subjects_with_students rem) rem 0 [])"
proof -
  from allocate_halls_cells [OF assms(1)] obtain rs where
    rs: "list_all2 (\<lambda>c r. allocate_slot tt hc (fst c) (snd c) = Inr r) (all_slots (config tt)) rs"
    and asgs: "hall_assignments res = concat rs"
    by (elim exE conjE)
  from assms(2) asgs obtain r where r: "r \<in> set rs" and ar: "a \<in> set r"
    by auto
  from list_all2_right_member [OF rs r] obtain c where
    slot: "allocate_slot tt hc (fst c) (snd c) = Inr r"
    by (elim bexE)
  show ?thesis
  proof (cases "subjects_in_slot tt (fst c) (snd c) = []")
    case True
    with slot have "r = []" by (simp add: allocate_slot_def)
    with ar show ?thesis by simp
  next
    case False
    with slot have "greedy_loop hc (fst c) (snd c) (sorted_halls hc)
        (subject_students (groups (config tt)) (subjects_in_slot tt (fst c) (snd c))) [] = Inr r"
      by (simp add: allocate_slot_def greedy_allocate_def)
    from greedy_loop_events [OF this subject_students_distinct] ar
    have "\<exists>h\<in>set (sorted_halls hc). \<exists>rem. distinct (map fst rem) \<and> hall_name a = name h \<and>
        allocations a = fst (fill_hall (capacity h) (per_subject_limit hc)
                               (subjects_with_students rem) rem 0 [])"
      by auto
    then show ?thesis by (simp add: sorted_halls_def)
  qed
qed



subsection \<open>Runs with a seed\<close>

lemma generate_timetable_ordering_config_seeded:
  "generate_timetable rotate_by_state seed_state 0 ordering_config = Inr ordering_timetable_seeded"
  by (simp add: generate_timetable_def validate_config_def ordering_config_def
      ordering_timetable_seeded_def
      total_slots_def all_group_subjects_def set_add_def raise_def init_scheduler_def init_domains_def
      variable_order_def sorted_reverse_def build_conflict_graph_def add_subject_conflicts_def
      all_slots_def py_range_def rotate_by_state_def is_consistent_def check_group_conflicts_def
      get_subjects_in_slot_def count_conflicts_def conflicts_get_def seed_state_def Let_def upto.simps
      rotate_def eval_nat_numeral)

lemma generate_timetable_ordering_config_unseeded_0:
  "generate_timetable rotate_by_state seed_state 0 (ordering_config\<lparr>random_seed := None\<rparr>)
     = Inr ordering_timetable_unseeded_0"
  by (simp add: generate_timetable_def validate_config_def ordering_config_def
      ordering_timetable_unseeded_0_def
      total_slots_def all_group_subjects_def set_add_def raise_def init_scheduler_def init_domains_def
      variable_order_def sorted_reverse_def build_conflict_graph_def add_subject_conflicts_def
      all_slots_def py_range_def rotate_by_state_def is_consistent_def check_group_conflicts_def
      get_subjects_in_slot_def count_conflicts_def conflicts_get_def seed_state_def Let_def upto.simps
      rotate_def eval_nat_numeral)

lemma allocate_halls_ordering:
  "allocate_halls ordering_timetable_seeded small_big_halls = Inr ordering_allocation"
  by (simp add: allocate_halls_def all_slots_def py_range_def upto.simps ordering_timetable_seeded_def
      ordering_config_def small_big_halls_def ordering_allocation_def allocate_slot_def
      subjects_in_slot_def subject_students_def greedy_allocate_def sorted_halls_def
      sorted_reverse_def subjects_with_students_def allocate_amount_def positive_count_def Let_def)



end
